theory Spec2Isabelle
  imports Complex_Main
begin

section \<open>Data model\<close>

text \<open>
  \<^verbatim>\<open>using Map = std::vector<std::vector<int>>;\<close>
  A map is a vector of rows. C++ \<^verbatim>\<open>int\<close> is embedded as \<open>int\<close> and \<^verbatim>\<open>double\<close> as
  \<open>real\<close>: these definitions are the program on the executions in which no signed
  arithmetic overflows, and they idealise floating-point rounding. Where the width of
  \<^verbatim>\<open>int\<close> decides the matter, in the neighbour loops and the rule of cellularAutomata,
  the functions are embedded a second time with 32-bit wrap-around and the rounding of the
  quotient; the statement on termination is about that second embedding.
  Indexing a vector outside its size is undefined behaviour in C++; the embedding makes
  it the error value \<open>OutOfBounds\<close>, so that every theorem that exhibits a result
  also says that no access left the vectors.
\<close>

type_synonym Map = "int list list"

datatype error = OutOfBounds

definition in_vec :: "Map \<Rightarrow> int \<Rightarrow> int \<Rightarrow> bool" where
  "in_vec m i j \<longleftrightarrow> 0 \<le> i \<and> i < int (length m) \<and> 0 \<le> j \<and> j < int (length (m ! nat i))"

text \<open>\<^verbatim>\<open>m[i][j]\<close> as an rvalue.\<close>

definition map_read :: "Map \<Rightarrow> int \<Rightarrow> int \<Rightarrow> error + int" where
  "map_read m i j = (if in_vec m i j then Inr (m ! nat i ! nat j) else Inl OutOfBounds)"

text \<open>\<^verbatim>\<open>m[i][j] = v;\<close>\<close>

definition map_write :: "Map \<Rightarrow> int \<Rightarrow> int \<Rightarrow> int \<Rightarrow> error + Map" where
  "map_write m i j v =
     (if in_vec m i j then Inr (m[nat i := (m ! nat i)[nat j := v]]) else Inl OutOfBounds)"

text \<open>A grid of \<open>H\<close> rows and \<open>W\<close> columns.\<close>

definition wf_grid :: "Map \<Rightarrow> int \<Rightarrow> int \<Rightarrow> bool" where
  "wf_grid m H W \<longleftrightarrow> int (length m) = H \<and> list_all (\<lambda>row. int (length row) = W) m"

text \<open>
  \<^verbatim>\<open>std::mt19937 gen(seed)\<close> with a seed read from the system clock. The values a
  generator will deliver are not known to the program, so a generator is embedded as the
  sequence of draws it is going to produce together with the number of draws consumed.
  \<open>ints\<close> is what the generator yields to a \<^verbatim>\<open>std::uniform_int_distribution\<close> and
  \<open>reals\<close> what it yields to a \<^verbatim>\<open>std::uniform_real_distribution\<close> (a number of
  \<open>[0, 1)\<close> in the library; nothing below relies on that range). A distribution
  \<open>(a, b)\<close> maps the draw into its range.
\<close>

record gen =
  ints :: "nat \<Rightarrow> nat"
  reals :: "nat \<Rightarrow> real"
  idx :: nat

definition uniform_int :: "int \<Rightarrow> int \<Rightarrow> gen \<Rightarrow> int \<times> gen" where
  "uniform_int a b g = (a + int (ints g (idx g)) mod (b - a + 1), g\<lparr>idx := idx g + 1\<rparr>)"

definition uniform_real :: "real \<Rightarrow> real \<Rightarrow> gen \<Rightarrow> real \<times> gen" where
  "uniform_real a b g = (a + (b - a) * reals g (idx g), g\<lparr>idx := idx g + 1\<rparr>)"

text \<open>C++ division of \<^verbatim>\<open>int\<close> truncates towards zero.\<close>

definition cdiv :: "int \<Rightarrow> int \<Rightarrow> int" where
  "cdiv a b = (if (a < 0) = (b < 0) then \<bar>a\<bar> div \<bar>b\<bar> else - (\<bar>a\<bar> div \<bar>b\<bar>))"

section \<open>cellularAutomata\<close>

text \<open>
  The neighbour count, shared by both versions of \<^verbatim>\<open>cellularAutomata\<close>:
  \<^verbatim>\<open>
  for (int di = -R; di <= R; ++di) {
      for (int dj = -R; dj <= R; ++dj) {
          int ni = i + di;
          int nj = j + dj;
          if (ni >= 0 && ni < H && nj >= 0 && nj < W) {
              countOnes += currentMap[ni][nj];
          }
      }
  }
  \<close>
\<close>

function count_dj :: "Map \<Rightarrow> int \<Rightarrow> int \<Rightarrow> int \<Rightarrow> int \<Rightarrow> int \<Rightarrow> int \<Rightarrow> int \<Rightarrow> int \<Rightarrow> error + int" where
  "count_dj currentMap W H R i j di dj countOnes =
     (if dj \<le> R then
        (let ni = i + di; nj = j + dj in
         if ni \<ge> 0 \<and> ni < H \<and> nj \<ge> 0 \<and> nj < W then
           (case map_read currentMap ni nj of
              Inl e \<Rightarrow> Inl e
            | Inr v \<Rightarrow> count_dj currentMap W H R i j di (dj + 1) (countOnes + v))
         else count_dj currentMap W H R i j di (dj + 1) countOnes)
      else Inr countOnes)"
  by pat_completeness auto
termination
  by (relation "measure (\<lambda>(currentMap, W, H, R, i, j, di, dj, countOnes). nat (R + 1 - dj))") auto

function count_di :: "Map \<Rightarrow> int \<Rightarrow> int \<Rightarrow> int \<Rightarrow> int \<Rightarrow> int \<Rightarrow> int \<Rightarrow> int \<Rightarrow> error + int" where
  "count_di currentMap W H R i j di countOnes =
     (if di \<le> R then
        (case count_dj currentMap W H R i j di (- R) countOnes of
           Inl e \<Rightarrow> Inl e
         | Inr c \<Rightarrow> count_di currentMap W H R i j (di + 1) c)
      else Inr countOnes)"
  by pat_completeness auto
termination
  by (relation "measure (\<lambda>(currentMap, W, H, R, i, j, di, countOnes). nat (R + 1 - di))") auto

text \<open>
  \<^verbatim>\<open>
  double neighborRatio = static_cast<double>(countOnes) / ((2 * R + 1) * (2 * R + 1));
  ... = (neighborRatio > U) ? 1 : 0;
  \<close>
\<close>

definition apply_rule :: "int \<Rightarrow> int \<Rightarrow> real \<Rightarrow> int" where
  "apply_rule countOnes R U =
     (let neighborRatio = real_of_int countOnes / real_of_int ((2 * R + 1) * (2 * R + 1))
      in if neighborRatio > U then 1 else 0)"

subsection \<open>The version that writes into a copy (lines 34-60)\<close>

text \<open>
  \<^verbatim>\<open>
  Map cellularAutomata(const Map& currentMap, int W, int H, int R, double U) {
      Map newMap = currentMap;
      unsigned seed = ...; std::mt19937 gen(seed);
      std::uniform_real_distribution<> distProb(0.0, 1.0);
      for (int i = 0; i < H; ++i) {
          for (int j = 0; j < W; ++j) {
              int countOnes = 0;
              ... count over currentMap ...
              newMap[i][j] = (neighborRatio > U) ? 1 : 0;
          }
      }
      return newMap;
  }
  \<close>
\<close>

function ca_j_loop :: "Map \<Rightarrow> int \<Rightarrow> int \<Rightarrow> int \<Rightarrow> real \<Rightarrow> int \<Rightarrow> int \<Rightarrow> Map \<Rightarrow> error + Map" where
  "ca_j_loop currentMap W H R U i j newMap =
     (if j < W then
        (case count_di currentMap W H R i j (- R) 0 of
           Inl e \<Rightarrow> Inl e
         | Inr countOnes \<Rightarrow>
             (case map_write newMap i j (apply_rule countOnes R U) of
                Inl e \<Rightarrow> Inl e
              | Inr newMap' \<Rightarrow> ca_j_loop currentMap W H R U i (j + 1) newMap'))
      else Inr newMap)"
  by pat_completeness auto
termination
  by (relation "measure (\<lambda>(currentMap, W, H, R, U, i, j, newMap). nat (W - j))") auto

function ca_i_loop :: "Map \<Rightarrow> int \<Rightarrow> int \<Rightarrow> int \<Rightarrow> real \<Rightarrow> int \<Rightarrow> Map \<Rightarrow> error + Map" where
  "ca_i_loop currentMap W H R U i newMap =
     (if i < H then
        (case ca_j_loop currentMap W H R U i 0 newMap of
           Inl e \<Rightarrow> Inl e
         | Inr newMap' \<Rightarrow> ca_i_loop currentMap W H R U (i + 1) newMap')
      else Inr newMap)"
  by pat_completeness auto
termination
  by (relation "measure (\<lambda>(currentMap, W, H, R, U, i, newMap). nat (H - i))") auto

text \<open>
  The first argument is the generator the function constructs from the clock; the body
  never draws from it.
\<close>

definition cellularAutomata :: "gen \<Rightarrow> Map \<Rightarrow> int \<Rightarrow> int \<Rightarrow> int \<Rightarrow> real \<Rightarrow> error + Map" where
  "cellularAutomata gen currentMap W H R U =
     (let newMap = currentMap in ca_i_loop currentMap W H R U 0 newMap)"

subsection \<open>The version that writes into its argument (lines 257-283)\<close>

text \<open>
  \<^verbatim>\<open>
  Map cellularAutomata(Map& currentMap, int W, int H, int R, double U) {
      ...
      for (int i = 0; i < H; ++i) {
          for (int j = 0; j < W; ++j) {
              int countOnes = 0;
              ... count over currentMap ...
              currentMap[i][j] = (neighborRatio > U) ? 1 : 0;
          }
      }
      return currentMap;
  }
  \<close>
\<close>

function ca2_j_loop :: "int \<Rightarrow> int \<Rightarrow> int \<Rightarrow> real \<Rightarrow> int \<Rightarrow> int \<Rightarrow> Map \<Rightarrow> error + Map" where
  "ca2_j_loop W H R U i j currentMap =
     (if j < W then
        (case count_di currentMap W H R i j (- R) 0 of
           Inl e \<Rightarrow> Inl e
         | Inr countOnes \<Rightarrow>
             (case map_write currentMap i j (apply_rule countOnes R U) of
                Inl e \<Rightarrow> Inl e
              | Inr currentMap' \<Rightarrow> ca2_j_loop W H R U i (j + 1) currentMap'))
      else Inr currentMap)"
  by pat_completeness auto
termination
  by (relation "measure (\<lambda>(W, H, R, U, i, j, currentMap). nat (W - j))") auto

function ca2_i_loop :: "int \<Rightarrow> int \<Rightarrow> int \<Rightarrow> real \<Rightarrow> int \<Rightarrow> Map \<Rightarrow> error + Map" where
  "ca2_i_loop W H R U i currentMap =
     (if i < H then
        (case ca2_j_loop W H R U i 0 currentMap of
           Inl e \<Rightarrow> Inl e
         | Inr currentMap' \<Rightarrow> ca2_i_loop W H R U (i + 1) currentMap')
      else Inr currentMap)"
  by pat_completeness auto
termination
  by (relation "measure (\<lambda>(W, H, R, U, i, currentMap). nat (H - i))") auto

definition cellularAutomata2 :: "gen \<Rightarrow> Map \<Rightarrow> int \<Rightarrow> int \<Rightarrow> int \<Rightarrow> real \<Rightarrow> error + Map" where
  "cellularAutomata2 gen currentMap W H R U = ca2_i_loop W H R U 0 currentMap"

declare count_dj.simps [simp del] count_di.simps [simp del]
declare ca_j_loop.simps [simp del] ca_i_loop.simps [simp del]
declare ca2_j_loop.simps [simp del] ca2_i_loop.simps [simp del]


subsection \<open>The two versions on 32-bit integers\<close>

text \<open>
  The definitions above count in unbounded integers and divide in the reals. That is the
  program as long as no \<^verbatim>\<open>int\<close> operation overflows and no quotient is rounded onto the
  threshold. The definitions of this subsection are the same two functions with the
  arithmetic of the machine: \<^verbatim>\<open>int\<close> is 32 bits wide and an operation that leaves
  \<open>[INT_MIN, INT_MAX]\<close> wraps around (two's complement, what the compiled program does;
  the C++ standard leaves the overflow undefined), and the quotient of the two
  \<^verbatim>\<open>double\<close> operands is rounded to the nearest \<^verbatim>\<open>double\<close>, ties to even.
  With wrapping counters the two neighbour loops need not terminate, so they are partial
  functions: \<open>None\<close> is a loop that never exits.
\<close>

definition INT_MAX :: int where
  "INT_MAX = 2147483647"

definition INT_MIN :: int where
  "INT_MIN = - 2147483648"

definition wrap32 :: "int \<Rightarrow> int" where
  "wrap32 x = (x + 2147483648) mod 4294967296 - 2147483648"

text \<open>
  \<^verbatim>\<open>for (int dj = -R; dj <= R; ++dj) { int ni = i + di; int nj = j + dj; ... countOnes += ...; }\<close>
  with \<^verbatim>\<open>i + di\<close>, \<^verbatim>\<open>j + dj\<close>, \<^verbatim>\<open>countOnes += ...\<close> and \<^verbatim>\<open>++dj\<close> wrapping; the caller
  starts it at \<^verbatim>\<open>-R\<close>, wrapped.
\<close>

partial_function (option) count_dj_i32 ::
  "Map \<Rightarrow> int \<Rightarrow> int \<Rightarrow> int \<Rightarrow> int \<Rightarrow> int \<Rightarrow> int \<Rightarrow> int \<Rightarrow> int \<Rightarrow> (error + int) option" where
  "count_dj_i32 currentMap W H R i j di dj countOnes =
     (if dj \<le> R then
        (let ni = wrap32 (i + di); nj = wrap32 (j + dj) in
         if ni \<ge> 0 \<and> ni < H \<and> nj \<ge> 0 \<and> nj < W then
           (case map_read currentMap ni nj of
              Inl e \<Rightarrow> Some (Inl e)
            | Inr v \<Rightarrow>
                count_dj_i32 currentMap W H R i j di (wrap32 (dj + 1)) (wrap32 (countOnes + v)))
         else count_dj_i32 currentMap W H R i j di (wrap32 (dj + 1)) countOnes)
      else Some (Inr countOnes))"

partial_function (option) count_di_i32 ::
  "Map \<Rightarrow> int \<Rightarrow> int \<Rightarrow> int \<Rightarrow> int \<Rightarrow> int \<Rightarrow> int \<Rightarrow> int \<Rightarrow> (error + int) option" where
  "count_di_i32 currentMap W H R i j di countOnes =
     (if di \<le> R then
        (case count_dj_i32 currentMap W H R i j di (wrap32 (- R)) countOnes of
           None \<Rightarrow> None
         | Some (Inl e) \<Rightarrow> Some (Inl e)
         | Some (Inr c) \<Rightarrow> count_di_i32 currentMap W H R i j (wrap32 (di + 1)) c)
      else Some (Inr countOnes))"

text \<open>
  The \<^verbatim>\<open>double\<close> nearest to \<open>a / b\<close>, ties to even, for integers that a \<^verbatim>\<open>double\<close>
  holds exactly (every \<^verbatim>\<open>int\<close> is one): \<open>e\<close> is the binary exponent of the quotient and
  \<open>sig\<close> its significand of 53 bits. The exponent range of \<^verbatim>\<open>double\<close> is not modelled;
  quotients of two \<^verbatim>\<open>int\<close> are far inside it. For \<open>b = 0\<close> the value is 0; the
  denominator of the rule is odd and never 0.
\<close>

function bit_length :: "int \<Rightarrow> int" where
  "bit_length n = (if n \<le> 0 then 0 else 1 + bit_length (n div 2))"
  by pat_completeness auto
termination
  by (relation "measure nat") auto

definition double_div :: "int \<Rightarrow> int \<Rightarrow> real" where
  "double_div a b =
     (if a = 0 \<or> b = 0 then 0
      else
        let n = \<bar>a\<bar>; d = \<bar>b\<bar>;
            k = bit_length n - bit_length d;
            e = (if d * 2 ^ nat k \<le> n * 2 ^ nat (- k) then k else k - 1);
            num = n * 2 ^ nat (52 - e); den = d * 2 ^ nat (e - 52);
            q = num div den; r = num mod den;
            sig = (if den < 2 * r \<or> (2 * r = den \<and> odd q) then q + 1 else q);
            v = real_of_int sig * 2 ^ nat (e - 52) / 2 ^ nat (52 - e)
        in if (a < 0) = (b < 0) then v else - v)"

text \<open>
  \<^verbatim>\<open>
  double neighborRatio = static_cast<double>(countOnes) / ((2 * R + 1) * (2 * R + 1));
  ... = (neighborRatio > U) ? 1 : 0;
  \<close>
  with \<^verbatim>\<open>2 * R\<close>, \<^verbatim>\<open>+ 1\<close> and the product wrapping.
\<close>

definition apply_rule_i32 :: "int \<Rightarrow> int \<Rightarrow> real \<Rightarrow> int" where
  "apply_rule_i32 countOnes R U =
     (let side = wrap32 (wrap32 (2 * R) + 1);
          neighborRatio = double_div countOnes (wrap32 (side * side))
      in if neighborRatio > U then 1 else 0)"

text \<open>
  The loops over the cells. \<^verbatim>\<open>++j\<close> and \<^verbatim>\<open>++i\<close> increment a value below \<^verbatim>\<open>W\<close> or
  \<^verbatim>\<open>H\<close> and cannot overflow.
\<close>

function ca_j_loop_i32 ::
  "Map \<Rightarrow> int \<Rightarrow> int \<Rightarrow> int \<Rightarrow> real \<Rightarrow> int \<Rightarrow> int \<Rightarrow> Map \<Rightarrow> (error + Map) option" where
  "ca_j_loop_i32 currentMap W H R U i j newMap =
     (if j < W then
        (case count_di_i32 currentMap W H R i j (wrap32 (- R)) 0 of
           None \<Rightarrow> None
         | Some (Inl e) \<Rightarrow> Some (Inl e)
         | Some (Inr countOnes) \<Rightarrow>
             (case map_write newMap i j (apply_rule_i32 countOnes R U) of
                Inl e \<Rightarrow> Some (Inl e)
              | Inr newMap' \<Rightarrow> ca_j_loop_i32 currentMap W H R U i (j + 1) newMap'))
      else Some (Inr newMap))"
  by pat_completeness auto
termination
  by (relation "measure (\<lambda>(currentMap, W, H, R, U, i, j, newMap). nat (W - j))") auto

function ca_i_loop_i32 ::
  "Map \<Rightarrow> int \<Rightarrow> int \<Rightarrow> int \<Rightarrow> real \<Rightarrow> int \<Rightarrow> Map \<Rightarrow> (error + Map) option" where
  "ca_i_loop_i32 currentMap W H R U i newMap =
     (if i < H then
        (case ca_j_loop_i32 currentMap W H R U i 0 newMap of
           None \<Rightarrow> None
         | Some (Inl e) \<Rightarrow> Some (Inl e)
         | Some (Inr newMap') \<Rightarrow> ca_i_loop_i32 currentMap W H R U (i + 1) newMap')
      else Some (Inr newMap))"
  by pat_completeness auto
termination
  by (relation "measure (\<lambda>(currentMap, W, H, R, U, i, newMap). nat (H - i))") auto

text \<open>Lines 34-60.\<close>

definition cellularAutomata_i32 ::
  "gen \<Rightarrow> Map \<Rightarrow> int \<Rightarrow> int \<Rightarrow> int \<Rightarrow> real \<Rightarrow> (error + Map) option" where
  "cellularAutomata_i32 gen currentMap W H R U =
     (let newMap = currentMap in ca_i_loop_i32 currentMap W H R U 0 newMap)"

function ca2_j_loop_i32 ::
  "int \<Rightarrow> int \<Rightarrow> int \<Rightarrow> real \<Rightarrow> int \<Rightarrow> int \<Rightarrow> Map \<Rightarrow> (error + Map) option" where
  "ca2_j_loop_i32 W H R U i j currentMap =
     (if j < W then
        (case count_di_i32 currentMap W H R i j (wrap32 (- R)) 0 of
           None \<Rightarrow> None
         | Some (Inl e) \<Rightarrow> Some (Inl e)
         | Some (Inr countOnes) \<Rightarrow>
             (case map_write currentMap i j (apply_rule_i32 countOnes R U) of
                Inl e \<Rightarrow> Some (Inl e)
              | Inr currentMap' \<Rightarrow> ca2_j_loop_i32 W H R U i (j + 1) currentMap'))
      else Some (Inr currentMap))"
  by pat_completeness auto
termination
  by (relation "measure (\<lambda>(W, H, R, U, i, j, currentMap). nat (W - j))") auto

function ca2_i_loop_i32 ::
  "int \<Rightarrow> int \<Rightarrow> int \<Rightarrow> real \<Rightarrow> int \<Rightarrow> Map \<Rightarrow> (error + Map) option" where
  "ca2_i_loop_i32 W H R U i currentMap =
     (if i < H then
        (case ca2_j_loop_i32 W H R U i 0 currentMap of
           None \<Rightarrow> None
         | Some (Inl e) \<Rightarrow> Some (Inl e)
         | Some (Inr currentMap') \<Rightarrow> ca2_i_loop_i32 W H R U (i + 1) currentMap')
      else Some (Inr currentMap))"
  by pat_completeness auto
termination
  by (relation "measure (\<lambda>(W, H, R, U, i, currentMap). nat (H - i))") auto

text \<open>Lines 257-283.\<close>

definition cellularAutomata2_i32 ::
  "gen \<Rightarrow> Map \<Rightarrow> int \<Rightarrow> int \<Rightarrow> int \<Rightarrow> real \<Rightarrow> (error + Map) option" where
  "cellularAutomata2_i32 gen currentMap W H R U = ca2_i_loop_i32 W H R U 0 currentMap"

declare ca_j_loop_i32.simps [simp del] ca_i_loop_i32.simps [simp del]
declare ca2_j_loop_i32.simps [simp del] ca2_i_loop_i32.simps [simp del]
declare bit_length.simps [simp del]
declare count_dj_i32.simps [code] count_di_i32.simps [code]

subsection \<open>The rule in the words of the specification\<close>

text \<open>
  "Sum all in-bounds neighbor values over the window \<open>[i-R,i+R] \<times> [j-R,j+R]\<close> (center
  cell included). Divide by the fixed window area \<open>(2R+1)\<^sup>2\<close> to get the ratio. Output cell
  = 1 if the ratio is greater than \<open>U\<close>, else 0."
\<close>

definition window_values :: "Map \<Rightarrow> int \<Rightarrow> int \<Rightarrow> int \<Rightarrow> int \<Rightarrow> int \<Rightarrow> int list" where
  "window_values m W H R i j =
     [m ! nat ni ! nat nj. ni \<leftarrow> [i - R..i + R], nj \<leftarrow> [j - R..j + R],
                           0 \<le> ni \<and> ni < H \<and> 0 \<le> nj \<and> nj < W]"

definition window_sum :: "Map \<Rightarrow> int \<Rightarrow> int \<Rightarrow> int \<Rightarrow> int \<Rightarrow> int \<Rightarrow> int" where
  "window_sum m W H R i j = sum_list (window_values m W H R i j)"

definition spec_cell :: "Map \<Rightarrow> int \<Rightarrow> int \<Rightarrow> int \<Rightarrow> real \<Rightarrow> int \<Rightarrow> int \<Rightarrow> int" where
  "spec_cell m W H R U i j =
     (if real_of_int (window_sum m W H R i j) / real_of_int ((2 * R + 1)\<^sup>2) > U then 1 else 0)"

text \<open>
  Two grids hold the same values on the in-bounds part of the window of cell \<open>(i, j)\<close>.
\<close>

definition same_window :: "Map \<Rightarrow> Map \<Rightarrow> int \<Rightarrow> int \<Rightarrow> int \<Rightarrow> int \<Rightarrow> int \<Rightarrow> bool" where
  "same_window m m' W H R i j \<longleftrightarrow> window_values m W H R i j = window_values m' W H R i j"

text \<open>A generator for concrete runs: every draw is 0.\<close>

definition gen0 :: gen where
  "gen0 = \<lparr>ints = (\<lambda>_. 0), reals = (\<lambda>_. 0), idx = 0\<rparr>"

section \<open>drunkAgent\<close>

text \<open>
  The arguments of a call, under the names \<^verbatim>\<open>main\<close> gives them.
\<close>

record da_params =
  da_W :: int
  da_H :: int
  da_J :: int
  da_I :: int
  da_roomSizeX :: int
  da_roomSizeY :: int
  da_probGenerateRoom :: real
  da_probIncreaseRoom :: real
  da_probChangeDirection :: real
  da_probIncreaseChange :: real

text \<open>
  What one step saw and did, recorded for the statements below; the program keeps no
  such record.
\<close>

record snapshot =
  s_x :: int
  s_y :: int
  s_dir :: int
  s_probRoom :: real
  s_probChange :: real

record step_log =
  pre :: snapshot
  roomFired :: bool
  changeFired :: bool
  bounced :: bool
  post :: snapshot

text \<open>
  The variables of one invocation. \<open>currentMap\<close> is the caller's object behind the
  reference parameter, \<open>newMap\<close> the local that is returned, \<open>agentX\<close> and
  \<open>agentY\<close> the caller's variables behind the two reference parameters.
  \<open>writes\<close> (the cell indices assigned, in order) and \<open>steps\<close> are the record kept
  for the statements.
\<close>

record agent =
  currentMap :: Map
  newMap :: Map
  gen :: gen
  currentProbRoom :: real
  currentProbChange :: real
  currentDirection :: int
  agentX :: int
  agentY :: int
  writes :: "(int \<times> int) list"
  steps :: "step_log list"

definition snap :: "agent \<Rightarrow> snapshot" where
  "snap s = \<lparr>s_x = agentX s, s_y = agentY s, s_dir = currentDirection s,
             s_probRoom = currentProbRoom s, s_probChange = currentProbChange s\<rparr>"

text \<open>
  \<^verbatim>\<open>std::uniform_int_distribution<> distDirection(0, 3);\<close>
  \<^verbatim>\<open>std::uniform_real_distribution<> distProb(0.0, 1.0);\<close>
  \<^verbatim>\<open>std::vector<std::pair<int, int>> directions = {{-1, 0}, {1, 0}, {0, -1}, {0, 1}};\<close>
\<close>

definition distDirection :: "gen \<Rightarrow> int \<times> gen" where
  "distDirection = uniform_int 0 3"

definition distProb :: "gen \<Rightarrow> real \<times> gen" where
  "distProb = uniform_real 0 1"

definition directions :: "(int \<times> int) list" where
  "directions = [(- 1, 0), (1, 0), (0, - 1), (0, 1)]"

definition directions_at :: "int \<Rightarrow> error + (int \<times> int)" where
  "directions_at d =
     (if 0 \<le> d \<and> d < int (length directions) then Inr (directions ! nat d) else Inl OutOfBounds)"

text \<open>\<^verbatim>\<open>newMap[agentX][agentY] = 1;\<close>\<close>

definition mark_phase :: "agent \<Rightarrow> error + agent" where
  "mark_phase s =
     (case map_write (newMap s) (agentX s) (agentY s) 1 of
        Inl e \<Rightarrow> Inl e
      | Inr nm \<Rightarrow> Inr (s\<lparr>newMap := nm, writes := writes s @ [(agentX s, agentY s)]\<rparr>))"

text \<open>
  \<^verbatim>\<open>
  for (int x = startX; x <= endX; ++x) {
      for (int y = startY; y <= endY; ++y) {
          newMap[x][y] = 1;
      }
  }
  \<close>
\<close>

function room_y_loop :: "int \<Rightarrow> int \<Rightarrow> int \<Rightarrow> agent \<Rightarrow> error + agent" where
  "room_y_loop x y endY s =
     (if y \<le> endY then
        (case map_write (newMap s) x y 1 of
           Inl e \<Rightarrow> Inl e
         | Inr nm \<Rightarrow> room_y_loop x (y + 1) endY (s\<lparr>newMap := nm, writes := writes s @ [(x, y)]\<rparr>))
      else Inr s)"
  by pat_completeness auto
termination
  by (relation "measure (\<lambda>(x, y, endY, s). nat (endY + 1 - y))") auto

function room_x_loop :: "int \<Rightarrow> int \<Rightarrow> int \<Rightarrow> int \<Rightarrow> agent \<Rightarrow> error + agent" where
  "room_x_loop x endX startY endY s =
     (if x \<le> endX then
        (case room_y_loop x startY endY s of
           Inl e \<Rightarrow> Inl e
         | Inr s' \<Rightarrow> room_x_loop (x + 1) endX startY endY s')
      else Inr s)"
  by pat_completeness auto
termination
  by (relation "measure (\<lambda>(x, endX, startY, endY, s). nat (endX + 1 - x))") auto

text \<open>
  \<^verbatim>\<open>
  if (distProb(gen) < currentProbRoom) {
      int halfX = roomSizeX / 2;
      int halfY = roomSizeY / 2;
      int startX = std::max(0, agentX - halfX);
      int endX = std::min(H - 1, agentX + halfX);
      int startY = std::max(0, agentY - halfY);
      int endY = std::min(W - 1, agentY + halfY);
      ... the two loops ...
      currentProbRoom = probGenerateRoom;
  } else {
      currentProbRoom += probIncreaseRoom;
  }
  \<close>
  The flag says whether the room was carved.
\<close>

definition room_phase :: "da_params \<Rightarrow> agent \<Rightarrow> error + (bool \<times> agent)" where
  "room_phase p s =
     (let (r, g) = distProb (gen s); s1 = s\<lparr>gen := g\<rparr> in
      if r < currentProbRoom s1 then
        (let halfX = cdiv (da_roomSizeX p) 2;
             halfY = cdiv (da_roomSizeY p) 2;
             startX = max 0 (agentX s1 - halfX);
             endX = min (da_H p - 1) (agentX s1 + halfX);
             startY = max 0 (agentY s1 - halfY);
             endY = min (da_W p - 1) (agentY s1 + halfY)
         in case room_x_loop startX endX startY endY s1 of
              Inl e \<Rightarrow> Inl e
            | Inr s2 \<Rightarrow> Inr (True, s2\<lparr>currentProbRoom := da_probGenerateRoom p\<rparr>))
      else Inr (False, s1\<lparr>currentProbRoom := currentProbRoom s1 + da_probIncreaseRoom p\<rparr>))"

text \<open>
  \<^verbatim>\<open>
  if (distProb(gen) < currentProbChange) {
      currentDirection = distDirection(gen);
      currentProbChange = probChangeDirection;
  } else {
      currentProbChange += probIncreaseChange;
  }
  \<close>
  The flag says whether the roll succeeded.
\<close>

definition change_phase :: "da_params \<Rightarrow> agent \<Rightarrow> bool \<times> agent" where
  "change_phase p s =
     (let (r, g) = distProb (gen s); s1 = s\<lparr>gen := g\<rparr> in
      if r < currentProbChange s1 then
        (let (d, g') = distDirection (gen s1) in
         (True, s1\<lparr>gen := g', currentDirection := d,
                   currentProbChange := da_probChangeDirection p\<rparr>))
      else (False, s1\<lparr>currentProbChange := currentProbChange s1 + da_probIncreaseChange p\<rparr>))"

text \<open>
  \<^verbatim>\<open>
  int dx = directions[currentDirection].first;
  int dy = directions[currentDirection].second;
  int nextX = agentX + dx;
  int nextY = agentY + dy;
  if (nextX >= 0 && nextX < H && nextY >= 0 && nextY < W) {
      agentX = nextX;
      agentY = nextY;
  } else {
      currentDirection = distDirection(gen);
      currentProbChange = probChangeDirection;
  }
  \<close>
  The flag says whether the agent hit the border.
\<close>

definition move_phase :: "da_params \<Rightarrow> agent \<Rightarrow> error + (bool \<times> agent)" where
  "move_phase p s =
     (case directions_at (currentDirection s) of
        Inl e \<Rightarrow> Inl e
      | Inr (dx, dy) \<Rightarrow>
          (let nextX = agentX s + dx; nextY = agentY s + dy in
           if nextX \<ge> 0 \<and> nextX < da_H p \<and> nextY \<ge> 0 \<and> nextY < da_W p then
             Inr (False, s\<lparr>agentX := nextX, agentY := nextY\<rparr>)
           else
             (let (d, g') = distDirection (gen s) in
              Inr (True, s\<lparr>gen := g', currentDirection := d,
                            currentProbChange := da_probChangeDirection p\<rparr>))))"

text \<open>The body of the inner loop.\<close>

definition drunk_step :: "da_params \<Rightarrow> agent \<Rightarrow> error + agent" where
  "drunk_step p s =
     (case mark_phase s of
        Inl e \<Rightarrow> Inl e
      | Inr s1 \<Rightarrow>
          (case room_phase p s1 of
             Inl e \<Rightarrow> Inl e
           | Inr (roomed, s2) \<Rightarrow>
               (let (changed, s3) = change_phase p s2 in
                case move_phase p s3 of
                  Inl e \<Rightarrow> Inl e
                | Inr (bounce, s4) \<Rightarrow>
                    Inr (s4\<lparr>steps := steps s4 @
                              [\<lparr>pre = snap s, roomFired = roomed, changeFired = changed,
                                bounced = bounce, post = snap s4\<rparr>]\<rparr>))))"

text \<open>\<^verbatim>\<open>for (int step = 0; step < I; ++step) { ... }\<close>\<close>

function step_loop :: "da_params \<Rightarrow> int \<Rightarrow> agent \<Rightarrow> error + agent" where
  "step_loop p step s =
     (if step < da_I p then
        (case drunk_step p s of
           Inl e \<Rightarrow> Inl e
         | Inr s' \<Rightarrow> step_loop p (step + 1) s')
      else Inr s)"
  by pat_completeness auto
termination
  by (relation "measure (\<lambda>(p, step, s). nat (da_I p - step))") auto

text \<open>
  \<^verbatim>\<open>
  for (int walk = 0; walk < J; ++walk) {
      int currentDirection = distDirection(gen);
      for (int step = 0; step < I; ++step) { ... }
  }
  \<close>
\<close>

function walk_loop :: "da_params \<Rightarrow> int \<Rightarrow> agent \<Rightarrow> error + agent" where
  "walk_loop p walk s =
     (if walk < da_J p then
        (let (d, g) = distDirection (gen s) in
         case step_loop p 0 (s\<lparr>gen := g, currentDirection := d\<rparr>) of
           Inl e \<Rightarrow> Inl e
         | Inr s' \<Rightarrow> walk_loop p (walk + 1) s')
      else Inr s)"
  by pat_completeness auto
termination
  by (relation "measure (\<lambda>(p, walk, s). nat (da_J p - walk))") auto

text \<open>
  \<^verbatim>\<open>
  Map drunkAgent(Map& currentMap, int W, int H, int J, int I, int roomSizeX, int roomSizeY,
                 double probGenerateRoom, double probIncreaseRoom,
                 double probChangeDirection, double probIncreaseChange,
                 int& agentX, int& agentY) {
      Map newMap = currentMap;
      ... std::mt19937 gen(seed); ...
      double currentProbRoom = probGenerateRoom;
      double currentProbChange = probChangeDirection;
      ... the loops ...
      return newMap;
  }
  \<close>
  The first argument is the generator the call constructs from the clock. The state at
  the return is the result: the value returned is its \<open>newMap\<close>, and the caller finds
  its own three objects in \<open>currentMap\<close>, \<open>agentX\<close> and \<open>agentY\<close>.
  \<^verbatim>\<open>currentDirection\<close> is declared by each walk; \<open>initial_agent\<close> holds 0 for it until
  the first walk draws it.
\<close>

definition initial_agent :: "gen \<Rightarrow> Map \<Rightarrow> da_params \<Rightarrow> int \<Rightarrow> int \<Rightarrow> agent" where
  "initial_agent g0 m p x y =
     \<lparr>currentMap = m, newMap = m, gen = g0,
      currentProbRoom = da_probGenerateRoom p,
      currentProbChange = da_probChangeDirection p,
      currentDirection = 0, agentX = x, agentY = y, writes = [], steps = []\<rparr>"

definition drunkAgent_call :: "gen \<Rightarrow> Map \<Rightarrow> da_params \<Rightarrow> int \<Rightarrow> int \<Rightarrow> error + agent" where
  "drunkAgent_call g0 m p x y = walk_loop p 0 (initial_agent g0 m p x y)"

definition drunkAgent ::
  "gen \<Rightarrow> Map \<Rightarrow> int \<Rightarrow> int \<Rightarrow> int \<Rightarrow> int \<Rightarrow> int \<Rightarrow> int \<Rightarrow> real \<Rightarrow> real \<Rightarrow> real \<Rightarrow> real \<Rightarrow> int \<Rightarrow> int
     \<Rightarrow> error + agent" where
  "drunkAgent g0 m W H J I roomSizeX roomSizeY probGenerateRoom probIncreaseRoom
     probChangeDirection probIncreaseChange x y =
     drunkAgent_call g0 m
       \<lparr>da_W = W, da_H = H, da_J = J, da_I = I,
        da_roomSizeX = roomSizeX, da_roomSizeY = roomSizeY,
        da_probGenerateRoom = probGenerateRoom, da_probIncreaseRoom = probIncreaseRoom,
        da_probChangeDirection = probChangeDirection,
        da_probIncreaseChange = probIncreaseChange\<rparr> x y"

text \<open>
  Every cell that holds 1 in the first grid holds 1 in the second, and the two grids have
  the same shape.
\<close>

definition ones_kept :: "Map \<Rightarrow> Map \<Rightarrow> bool" where
  "ones_kept m m' \<longleftrightarrow> list_all2 (list_all2 (\<lambda>v v'. v = 1 \<longrightarrow> v' = 1)) m m'"

text \<open>A cell index lies inside \<open>[0, H) \<times> [0, W)\<close>.\<close>

definition inside :: "int \<Rightarrow> int \<Rightarrow> int \<times> int \<Rightarrow> bool" where
  "inside H W c \<longleftrightarrow> 0 \<le> fst c \<and> fst c < H \<and> 0 \<le> snd c \<and> snd c < W"



text \<open>
  What a step did to the two running probabilities, read off its record: the room
  probability is back at its base value when the room was carved and has grown by its
  increment otherwise; the change probability is back at its base value when the roll
  succeeded or the agent hit the border and has grown by its increment otherwise.
\<close>

definition room_ramp :: "da_params \<Rightarrow> step_log \<Rightarrow> bool" where
  "room_ramp p e \<longleftrightarrow>
     s_probRoom (post e) =
       (if roomFired e then da_probGenerateRoom p
        else s_probRoom (pre e) + da_probIncreaseRoom p)"

definition change_ramp :: "da_params \<Rightarrow> step_log \<Rightarrow> bool" where
  "change_ramp p e \<longleftrightarrow>
     s_probChange (post e) =
       (if changeFired e \<or> bounced e then da_probChangeDirection p
        else s_probChange (pre e) + da_probIncreaseChange p)"




text \<open>
  The state of an invocation is in order: the local grid has \<open>H\<close> rows and \<open>W\<close>
  columns, the agent and every cell index assigned so far lie inside the grid, every step
  so far left the agent inside the grid, and the direction indexes \<^verbatim>\<open>directions\<close>.
\<close>

definition agent_ok :: "da_params \<Rightarrow> agent \<Rightarrow> bool" where
  "agent_ok p s \<longleftrightarrow>
     wf_grid (newMap s) (da_H p) (da_W p) \<and>
     inside (da_H p) (da_W p) (agentX s, agentY s) \<and>
     0 \<le> currentDirection s \<and> currentDirection s < 4 \<and>
     list_all (inside (da_H p) (da_W p)) (writes s) \<and>
     list_all (\<lambda>e. inside (da_H p) (da_W p) (s_x (post e), s_y (post e))) (steps s)"

text \<open>
  A second generator for concrete runs: every direction drawn is 3, the offset
  \<open>(0, 1)\<close>, and every real drawn is 0.9.
\<close>

definition gen1 :: gen where
  "gen1 = \<lparr>ints = (\<lambda>_. 3), reals = (\<lambda>_. 9 / 10), idx = 0\<rparr>"

declare room_y_loop.simps [simp del] room_x_loop.simps [simp del]
declare step_loop.simps [simp del] walk_loop.simps [simp del]


section \<open>The driver: main (lines 148-222)\<close>

text \<open>
  \<^verbatim>\<open>printMap\<close> only writes to the console and is left out. Each call of
  \<^verbatim>\<open>cellularAutomata\<close> and \<^verbatim>\<open>drunkAgent\<close> seeds a generator from the clock:
  \<open>clock_ca k\<close> and \<open>clock_da k\<close> are the generators of the two calls of iteration
  \<open>k\<close>. \<open>calls\<close> records, for every call of \<^verbatim>\<open>drunkAgent\<close>, the generator it
  constructed, the arguments, the position the caller held before the call and the state
  at the return; the program keeps no such record.
\<close>

record call_log =
  c_gen :: gen
  c_params :: da_params
  c_startX :: int
  c_startY :: int
  c_result :: agent

record sim =
  myMap :: Map
  drunkAgentX :: int
  drunkAgentY :: int
  main_gen :: gen
  calls :: "call_log list"

text \<open>
  \<^verbatim>\<open>
  for (int i = 0; i < mapRows; ++i) {
      for (int j = 0; j < mapCols; ++j) {
          myMap[i][j] = dist01(gen);
      }
  }
  \<close>
\<close>

function fill_j_loop :: "int \<Rightarrow> int \<Rightarrow> int \<Rightarrow> Map \<times> gen \<Rightarrow> error + (Map \<times> gen)" where
  "fill_j_loop mapCols i j mg =
     (if j < mapCols then
        (let (v, g') = uniform_int 0 1 (snd mg) in
         case map_write (fst mg) i j v of
           Inl e \<Rightarrow> Inl e
         | Inr m' \<Rightarrow> fill_j_loop mapCols i (j + 1) (m', g'))
      else Inr mg)"
  by pat_completeness auto
termination
  by (relation "measure (\<lambda>(mapCols, i, j, mg). nat (mapCols - j))") auto

function fill_i_loop :: "int \<Rightarrow> int \<Rightarrow> int \<Rightarrow> Map \<times> gen \<Rightarrow> error + (Map \<times> gen)" where
  "fill_i_loop mapRows mapCols i mg =
     (if i < mapRows then
        (case fill_j_loop mapCols i 0 mg of
           Inl e \<Rightarrow> Inl e
         | Inr mg' \<Rightarrow> fill_i_loop mapRows mapCols (i + 1) mg')
      else Inr mg)"
  by pat_completeness auto
termination
  by (relation "measure (\<lambda>(mapRows, mapCols, i, mg). nat (mapRows - i))") auto

text \<open>
  \<^verbatim>\<open>
  int da_J = distJ(gen);                        // (3, 7)
  int da_I = distI(gen);                        // (5, 15)
  int da_roomSizeX = distRoomX(gen);            // (3, 7)
  int da_roomSizeY = distRoomY(gen);            // (2, 5)
  double da_probGenerateRoom = distProb(gen);       // (0.05, 0.3)
  double da_probIncreaseRoom = distProbInc(gen);    // (0.01, 0.1)
  double da_probChangeDirection = distProb(gen);
  double da_probIncreaseChange = distProbInc(gen);
  \<close>
\<close>

definition draw_params :: "int \<Rightarrow> int \<Rightarrow> gen \<Rightarrow> da_params \<times> gen" where
  "draw_params ca_W ca_H g =
     (let (J, g1) = uniform_int 3 7 g;
          (I, g2) = uniform_int 5 15 g1;
          (roomSizeX, g3) = uniform_int 3 7 g2;
          (roomSizeY, g4) = uniform_int 2 5 g3;
          (probGenerateRoom, g5) = uniform_real (5 / 100) (3 / 10) g4;
          (probIncreaseRoom, g6) = uniform_real (1 / 100) (1 / 10) g5;
          (probChangeDirection, g7) = uniform_real (5 / 100) (3 / 10) g6;
          (probIncreaseChange, g8) = uniform_real (1 / 100) (1 / 10) g7
      in (\<lparr>da_W = ca_W, da_H = ca_H, da_J = J, da_I = I,
            da_roomSizeX = roomSizeX, da_roomSizeY = roomSizeY,
            da_probGenerateRoom = probGenerateRoom, da_probIncreaseRoom = probIncreaseRoom,
            da_probChangeDirection = probChangeDirection,
            da_probIncreaseChange = probIncreaseChange\<rparr>, g8))"

text \<open>
  \<^verbatim>\<open>
  myMap = cellularAutomata(myMap, ca_W, ca_H, ca_R, ca_U);
  myMap = drunkAgent(myMap, ca_W, ca_H, da_J, ..., drunkAgentX, drunkAgentY);
  \<close>
\<close>

definition main_iteration ::
  "(int \<Rightarrow> gen) \<Rightarrow> (int \<Rightarrow> gen) \<Rightarrow> int \<Rightarrow> int \<Rightarrow> int \<Rightarrow> real \<Rightarrow> int \<Rightarrow> sim \<Rightarrow> error + sim" where
  "main_iteration clock_ca clock_da ca_W ca_H ca_R ca_U iteration st =
     (let (p, g') = draw_params ca_W ca_H (main_gen st) in
      case cellularAutomata (clock_ca iteration) (myMap st) ca_W ca_H ca_R ca_U of
        Inl e \<Rightarrow> Inl e
      | Inr m1 \<Rightarrow>
          (case drunkAgent_call (clock_da iteration) m1 p (drunkAgentX st) (drunkAgentY st) of
             Inl e \<Rightarrow> Inl e
           | Inr a \<Rightarrow>
               Inr (st\<lparr>myMap := newMap a, drunkAgentX := agentX a, drunkAgentY := agentY a,
                       main_gen := g',
                       calls := calls st @
                         [\<lparr>c_gen = clock_da iteration, c_params = p,
                           c_startX = drunkAgentX st, c_startY = drunkAgentY st,
                           c_result = a\<rparr>]\<rparr>)))"

text \<open>\<^verbatim>\<open>for (int iteration = 0; iteration < numIterations; ++iteration) { ... }\<close>\<close>

function main_loop ::
  "(int \<Rightarrow> gen) \<Rightarrow> (int \<Rightarrow> gen) \<Rightarrow> int \<Rightarrow> int \<Rightarrow> int \<Rightarrow> real \<Rightarrow> int \<Rightarrow> int \<Rightarrow> sim \<Rightarrow> error + sim" where
  "main_loop clock_ca clock_da ca_W ca_H ca_R ca_U numIterations iteration st =
     (if iteration < numIterations then
        (case main_iteration clock_ca clock_da ca_W ca_H ca_R ca_U iteration st of
           Inl e \<Rightarrow> Inl e
         | Inr st' \<Rightarrow>
             main_loop clock_ca clock_da ca_W ca_H ca_R ca_U numIterations (iteration + 1) st')
      else Inr st)"
  by pat_completeness auto
termination
  by (relation "measure (\<lambda>(clock_ca, clock_da, ca_W, ca_H, ca_R, ca_U, numIterations, iteration, st).
                  nat (numIterations - iteration))") auto

text \<open>
  \<^verbatim>\<open>
  int mapRows = 10;
  int mapCols = 20;
  Map myMap(mapRows, std::vector<int>(mapCols, 0));
  ... fill ...
  int drunkAgentX = mapRows / 2;
  int drunkAgentY = mapCols / 2;
  int numIterations = 5;
  int ca_W = mapCols; int ca_H = mapRows; int ca_R = 1; double ca_U = 0.5;
  ... the loop ...
  \<close>
  The first argument is the generator \<^verbatim>\<open>main\<close> seeds from the clock.
\<close>

definition main_sim :: "gen \<Rightarrow> (int \<Rightarrow> gen) \<Rightarrow> (int \<Rightarrow> gen) \<Rightarrow> error + sim" where
  "main_sim g0 clock_ca clock_da =
     (let mapRows = 10; mapCols = 20;
          myMap0 = replicate (nat mapRows) (replicate (nat mapCols) 0)
      in case fill_i_loop mapRows mapCols 0 (myMap0, g0) of
           Inl e \<Rightarrow> Inl e
         | Inr (m, g) \<Rightarrow>
             (let x = cdiv mapRows 2; y = cdiv mapCols 2;
                  numIterations = 5;
                  ca_W = mapCols; ca_H = mapRows; ca_R = 1; ca_U = 1 / 2
              in main_loop clock_ca clock_da ca_W ca_H ca_R ca_U numIterations 0
                   \<lparr>myMap = m, drunkAgentX = x, drunkAgentY = y, main_gen = g, calls = []\<rparr>))"

text \<open>
  A call starts where the call before it left the agent.
\<close>

definition position_carried :: "call_log \<Rightarrow> call_log \<Rightarrow> bool" where
  "position_carried c c' \<longleftrightarrow>
     c_startX c' = agentX (c_result c) \<and> c_startY c' = agentY (c_result c)"

text \<open>
  A call owes nothing to the calls before it but the grid and the position: its outcome
  is that of \<^verbatim>\<open>drunkAgent\<close> on its own generator, the grid it was passed, its own
  arguments and the position it was passed; and its first step starts at that position,
  with the first direction its own generator yields and with the two base probabilities
  of its own arguments.
\<close>

definition call_fresh :: "call_log \<Rightarrow> bool" where
  "call_fresh c \<longleftrightarrow>
     drunkAgent_call (c_gen c) (currentMap (c_result c)) (c_params c) (c_startX c) (c_startY c)
       = Inr (c_result c) \<and>
     steps (c_result c) \<noteq> [] \<and>
     pre (hd (steps (c_result c))) =
       \<lparr>s_x = c_startX c, s_y = c_startY c, s_dir = fst (distDirection (c_gen c)),
        s_probRoom = da_probGenerateRoom (c_params c),
        s_probChange = da_probChangeDirection (c_params c)\<rparr>"

declare fill_j_loop.simps [simp del] fill_i_loop.simps [simp del] main_loop.simps [simp del]

section \<open>Vector accesses on a well-formed grid\<close>

lemma in_vec_wf:
  "wf_grid m H W \<Longrightarrow> 0 \<le> i \<Longrightarrow> i < H \<Longrightarrow> 0 \<le> j \<Longrightarrow> j < W \<Longrightarrow> in_vec m i j"
  by (auto simp: wf_grid_def in_vec_def list_all_length)

lemma map_read_wf:
  "wf_grid m H W \<Longrightarrow> 0 \<le> i \<Longrightarrow> i < H \<Longrightarrow> 0 \<le> j \<Longrightarrow> j < W \<Longrightarrow>
   map_read m i j = Inr (m ! nat i ! nat j)"
  by (simp add: map_read_def in_vec_wf)

lemma wf_grid_update:
  "wf_grid m H W \<Longrightarrow> wf_grid (m[a := (m ! a)[b := v]]) H W"
  by (cases "a < length m") (auto simp: wf_grid_def list_all_length nth_list_update)

lemma map_write_wf:
  "wf_grid m H W \<Longrightarrow> 0 \<le> i \<Longrightarrow> i < H \<Longrightarrow> 0 \<le> j \<Longrightarrow> j < W \<Longrightarrow>
   map_write m i j v = Inr (m[nat i := (m ! nat i)[nat j := v]])"
  by (simp add: map_write_def in_vec_wf)

section \<open>cellularAutomata: the neighbour count\<close>

lemma count_dj_sum:
  "wf_grid m H W \<Longrightarrow>
   count_dj m W H R i j di dj c =
     Inr (c + (\<Sum>d \<leftarrow> [dj..R]. if 0 \<le> i + di \<and> i + di < H \<and> 0 \<le> j + d \<and> j + d < W
                                then m ! nat (i + di) ! nat (j + d) else 0))"
proof (induction m W H R i j di dj c rule: count_dj.induct)
  case (1 m W H R i j di dj c)
  show ?case
  proof (cases "dj \<le> R")
    case False
    then show ?thesis by (simp add: count_dj.simps [of m W H R i j di dj c])
  next
    case True
    then have up: "[dj..R] = dj # [dj + 1..R]" by (simp add: upto_rec1)
    show ?thesis
    proof (cases "0 \<le> i + di \<and> i + di < H \<and> 0 \<le> j + dj \<and> j + dj < W")
      case inb: True
      then have rd: "map_read m (i + di) (j + dj) = Inr (m ! nat (i + di) ! nat (j + dj))"
        using "1.prems" by (simp add: map_read_wf)
      have "count_dj m W H R i j di dj c =
            count_dj m W H R i j di (dj + 1) (c + m ! nat (i + di) ! nat (j + dj))"
        by (subst count_dj.simps) (simp add: True if_P [OF inb] rd Let_def)
      also have "\<dots> = Inr (c + m ! nat (i + di) ! nat (j + dj) +
                   (\<Sum>d \<leftarrow> [dj + 1..R]. if 0 \<le> i + di \<and> i + di < H \<and> 0 \<le> j + d \<and> j + d < W
                                then m ! nat (i + di) ! nat (j + d) else 0))"
        using "1.IH"(1) [OF True refl refl _ rd] inb "1.prems" by simp
      finally show ?thesis using inb by (simp add: up)
    next
      case oob: False
      have "count_dj m W H R i j di dj c = count_dj m W H R i j di (dj + 1) c"
        by (subst count_dj.simps) (simp add: True if_not_P [OF oob] Let_def)
      also have "\<dots> = Inr (c +
                   (\<Sum>d \<leftarrow> [dj + 1..R]. if 0 \<le> i + di \<and> i + di < H \<and> 0 \<le> j + d \<and> j + d < W
                                then m ! nat (i + di) ! nat (j + d) else 0))"
        using "1.IH"(2) [OF True refl refl _] oob "1.prems" by simp
      finally show ?thesis using oob by (auto simp: up)
    qed
  qed
qed

lemma count_di_sum:
  "wf_grid m H W \<Longrightarrow>
   count_di m W H R i j di c =
     Inr (c + (\<Sum>e \<leftarrow> [di..R]. \<Sum>d \<leftarrow> [- R..R].
                 if 0 \<le> i + e \<and> i + e < H \<and> 0 \<le> j + d \<and> j + d < W
                 then m ! nat (i + e) ! nat (j + d) else 0))"
proof (induction m W H R i j di c rule: count_di.induct)
  case (1 m W H R i j di c)
  show ?case
  proof (cases "di \<le> R")
    case False
    then show ?thesis by (simp add: count_di.simps [of m W H R i j di c])
  next
    case True
    then have up: "[di..R] = di # [di + 1..R]" by (simp add: upto_rec1)
    note row = count_dj_sum [OF "1.prems", of R i j di "- R" c]
    have "count_di m W H R i j di c = count_di m W H R i j (di + 1)
            (c + (\<Sum>d \<leftarrow> [- R..R].
                 if 0 \<le> i + di \<and> i + di < H \<and> 0 \<le> j + d \<and> j + d < W
                 then m ! nat (i + di) ! nat (j + d) else 0))"
      by (subst count_di.simps) (simp add: True row)
    also note "1.IH" [OF True row "1.prems"]
    finally show ?thesis by (simp add: up add.assoc)
  qed
qed

lemma sum_list_upto_shift:
  "(\<Sum>x \<leftarrow> [a + k..b + k]. f x) = (\<Sum>d \<leftarrow> [a..b]. f (k + d))" for k :: int
proof (induction a b rule: upto.induct)
  case (1 a b)
  show ?case
  proof (cases "a \<le> b")
    case True
    have "[a + k..b + k] = (a + k) # [a + 1 + k..b + k]"
      using True by (simp add: upto_rec1 add.commute add.left_commute)
    moreover have "[a..b] = a # [a + 1..b]" using True by (simp add: upto_rec1)
    ultimately show ?thesis using "1.IH" [OF True] by (simp add: add.commute)
  next
    case False
    then show ?thesis by simp
  qed
qed

lemma window_sum_nested:
  "window_sum m W H R i j =
     (\<Sum>ni \<leftarrow> [i - R..i + R]. \<Sum>nj \<leftarrow> [j - R..j + R].
        if 0 \<le> ni \<and> ni < H \<and> 0 \<le> nj \<and> nj < W then m ! nat ni ! nat nj else 0)"
proof -
  have inner: "sum_list (if P then [v] else []) = (if P then v else 0)" for P and v :: int
    by simp
  have outer: "sum_list (concat (map g xs)) = (\<Sum>x \<leftarrow> xs. sum_list (g x))"
    for g :: "int \<Rightarrow> int list" and xs
    by (induction xs) auto
  show ?thesis
    unfolding window_sum_def window_values_def
    by (simp add: outer inner)
qed

lemma window_sum_offsets:
  "window_sum m W H R i j =
     (\<Sum>e \<leftarrow> [- R..R]. \<Sum>d \<leftarrow> [- R..R].
        if 0 \<le> i + e \<and> i + e < H \<and> 0 \<le> j + d \<and> j + d < W
        then m ! nat (i + e) ! nat (j + d) else 0)"
proof -
  have a: "[i - R..i + R] = [- R + i..R + i]" and b: "[j - R..j + R] = [- R + j..R + j]"
    by (simp_all add: add.commute)
  show ?thesis
    unfolding window_sum_nested a b sum_list_upto_shift ..
qed

lemma count_di_window:
  "wf_grid m H W \<Longrightarrow> count_di m W H R i j (- R) 0 = Inr (window_sum m W H R i j)"
  by (simp add: count_di_sum window_sum_offsets)

lemma apply_rule_spec: "apply_rule (window_sum m W H R i j) R U = spec_cell m W H R U i j"
  by (simp add: apply_rule_def spec_cell_def power2_eq_square)

lemma apply_rule_binary: "apply_rule c R U = 0 \<or> apply_rule c R U = 1"
  by (simp add: apply_rule_def Let_def)

section \<open>cellularAutomata: the version that writes into a copy\<close>

lemma ca_j_loop_spec:
  "wf_grid cm H W \<Longrightarrow> wf_grid nm H W \<Longrightarrow> 0 \<le> i \<Longrightarrow> i < H \<Longrightarrow> 0 \<le> j \<Longrightarrow>
   \<exists>nm'. ca_j_loop cm W H R U i j nm = Inr nm' \<and> wf_grid nm' H W \<and>
     (\<forall>a b. nm' ! a ! b =
        (if a = nat i \<and> nat j \<le> b \<and> b < nat W then spec_cell cm W H R U i (int b)
         else nm ! a ! b))"
proof (induction cm W H R U i j nm rule: ca_j_loop.induct)
  case (1 cm W H R U i j nm)
  show ?case
  proof (cases "j < W")
    case False
    then show ?thesis
      using "1.prems" by (auto simp: ca_j_loop.simps [of cm W H R U i j nm])
  next
    case True
    let ?v = "spec_cell cm W H R U i j"
    let ?nm1 = "nm[nat i := (nm ! nat i)[nat j := ?v]]"
    have cnt: "count_di cm W H R i j (- R) 0 = Inr (window_sum cm W H R i j)"
      using "1.prems"(1) by (rule count_di_window)
    have wr: "map_write nm i j (apply_rule (window_sum cm W H R i j) R U) = Inr ?nm1"
      using "1.prems" True by (simp add: map_write_wf apply_rule_spec)
    have wf1: "wf_grid ?nm1 H W"
      using "1.prems"(2) by (rule wf_grid_update)
    have unfold: "ca_j_loop cm W H R U i j nm = ca_j_loop cm W H R U i (j + 1) ?nm1"
      by (subst ca_j_loop.simps) (simp add: True cnt wr)
    from "1.IH" [OF True cnt wr "1.prems"(1) wf1 "1.prems"(3,4)] "1.prems"(5)
    obtain nm' where res: "ca_j_loop cm W H R U i (j + 1) ?nm1 = Inr nm'"
      and wf': "wf_grid nm' H W"
      and cells: "\<forall>a b. nm' ! a ! b =
        (if a = nat i \<and> nat (j + 1) \<le> b \<and> b < nat W then spec_cell cm W H R U i (int b)
         else ?nm1 ! a ! b)"
      by auto
    have li: "nat i < length nm" and lj: "nat j < length (nm ! nat i)"
      using in_vec_wf [OF "1.prems"(2,3,4,5) True] by (auto simp: in_vec_def)
    have "nm' ! a ! b =
        (if a = nat i \<and> nat j \<le> b \<and> b < nat W then spec_cell cm W H R U i (int b)
         else nm ! a ! b)" for a b
    proof (cases "a = nat i \<and> b = nat j")
      case True
      then show ?thesis
        using cells li lj \<open>j < W\<close> "1.prems"(5) by (simp add: nat_add_distrib)
    next
      case False
      then have "?nm1 ! a ! b = nm ! a ! b"
        using li by (auto simp: nth_list_update)
      then show ?thesis
        using cells False "1.prems"(5) by (auto simp: nat_add_distrib)
    qed
    then show ?thesis using unfold res wf' by simp
  qed
qed

lemma ca_i_loop_spec:
  "wf_grid cm H W \<Longrightarrow> wf_grid nm H W \<Longrightarrow> 0 \<le> i \<Longrightarrow>
   \<exists>nm'. ca_i_loop cm W H R U i nm = Inr nm' \<and> wf_grid nm' H W \<and>
     (\<forall>a b. nm' ! a ! b =
        (if nat i \<le> a \<and> a < nat H \<and> b < nat W then spec_cell cm W H R U (int a) (int b)
         else nm ! a ! b))"
proof (induction cm W H R U i nm rule: ca_i_loop.induct)
  case (1 cm W H R U i nm)
  show ?case
  proof (cases "i < H")
    case False
    then show ?thesis
      using "1.prems" by (auto simp: ca_i_loop.simps [of cm W H R U i nm])
  next
    case True
    from ca_j_loop_spec [OF "1.prems"(1,2,3) True, of 0 R U]
    obtain nm1 where row: "ca_j_loop cm W H R U i 0 nm = Inr nm1"
      and wf1: "wf_grid nm1 H W"
      and cells1: "\<forall>a b. nm1 ! a ! b =
        (if a = nat i \<and> b < nat W then spec_cell cm W H R U i (int b) else nm ! a ! b)"
      by auto
    have unfold: "ca_i_loop cm W H R U i nm = ca_i_loop cm W H R U (i + 1) nm1"
      by (subst ca_i_loop.simps) (simp add: True row)
    from "1.IH" [OF True row "1.prems"(1) wf1] "1.prems"(3)
    obtain nm' where res: "ca_i_loop cm W H R U (i + 1) nm1 = Inr nm'"
      and wf': "wf_grid nm' H W"
      and cells: "\<forall>a b. nm' ! a ! b =
        (if nat (i + 1) \<le> a \<and> a < nat H \<and> b < nat W then spec_cell cm W H R U (int a) (int b)
         else nm1 ! a ! b)"
      by auto
    have "nm' ! a ! b =
        (if nat i \<le> a \<and> a < nat H \<and> b < nat W then spec_cell cm W H R U (int a) (int b)
         else nm ! a ! b)" for a b
      using cells cells1 True "1.prems"(3) by (auto simp: nat_add_distrib)
    then show ?thesis using unfold res wf' by simp
  qed
qed

lemma cellularAutomata_spec:
  "wf_grid m H W \<Longrightarrow>
   \<exists>g. cellularAutomata gn m W H R U = Inr g \<and> wf_grid g H W \<and>
     (\<forall>a b. a < nat H \<and> b < nat W \<longrightarrow> g ! a ! b = spec_cell m W H R U (int a) (int b))"
  using ca_i_loop_spec [of m H W m 0 R U] by (auto simp: cellularAutomata_def)

lemma cellularAutomata_rule:
  assumes "wf_grid m H W" and "0 \<le> i" and "i < H" and "0 \<le> j" and "j < W"
  shows "\<exists>g. cellularAutomata gn m W H R U = Inr g \<and>
           g ! nat i ! nat j =
             (if real_of_int (window_sum m W H R i j) / real_of_int ((2 * R + 1)\<^sup>2) > U
              then 1 else 0)"
proof -
  from cellularAutomata_spec [OF assms(1), of gn R U]
  obtain g where g: "cellularAutomata gn m W H R U = Inr g"
    and cells: "\<forall>a b. a < nat H \<and> b < nat W \<longrightarrow> g ! a ! b = spec_cell m W H R U (int a) (int b)"
    by blast
  have "nat i < nat H" and "nat j < nat W" using assms by simp_all
  with cells have "g ! nat i ! nat j = spec_cell m W H R U (int (nat i)) (int (nat j))"
    by blast
  with g show ?thesis using assms(2,4) by (simp add: spec_cell_def)
qed

lemma cellularAutomata_synchronous:
  assumes "wf_grid m H W" and "wf_grid m' H W" and "same_window m m' W H R i j"
    and "0 \<le> i" and "i < H" and "0 \<le> j" and "j < W"
  shows "\<exists>g g'. cellularAutomata gn m W H R U = Inr g \<and>
                 cellularAutomata gn' m' W H R U = Inr g' \<and>
                 g ! nat i ! nat j = g' ! nat i ! nat j"
proof -
  have "window_sum m W H R i j = window_sum m' W H R i j"
    using assms(3) by (simp add: same_window_def window_sum_def)
  with cellularAutomata_rule [OF assms(1,4,5,6,7), of gn R U]
       cellularAutomata_rule [OF assms(2,4,5,6,7), of gn' R U]
  show ?thesis by auto
qed

section \<open>cellularAutomata: the version that writes into its argument\<close>

lemma ca2_j_loop_binary:
  "wf_grid cm H W \<Longrightarrow> 0 \<le> i \<Longrightarrow> i < H \<Longrightarrow> 0 \<le> j \<Longrightarrow>
   \<exists>cm'. ca2_j_loop W H R U i j cm = Inr cm' \<and> wf_grid cm' H W \<and>
     (\<forall>a b. if a = nat i \<and> nat j \<le> b \<and> b < nat W then cm' ! a ! b = 0 \<or> cm' ! a ! b = 1
            else cm' ! a ! b = cm ! a ! b)"
proof (induction W H R U i j cm rule: ca2_j_loop.induct)
  case (1 W H R U i j cm)
  show ?case
  proof (cases "j < W")
    case False
    then show ?thesis
      using "1.prems" by (auto simp: ca2_j_loop.simps [of W H R U i j cm])
  next
    case True
    let ?v = "apply_rule (window_sum cm W H R i j) R U"
    let ?cm1 = "cm[nat i := (cm ! nat i)[nat j := ?v]]"
    have cnt: "count_di cm W H R i j (- R) 0 = Inr (window_sum cm W H R i j)"
      using "1.prems"(1) by (rule count_di_window)
    have wr: "map_write cm i j ?v = Inr ?cm1"
      using "1.prems" True by (simp add: map_write_wf)
    have wf1: "wf_grid ?cm1 H W"
      using "1.prems"(1) by (rule wf_grid_update)
    have unfold: "ca2_j_loop W H R U i j cm = ca2_j_loop W H R U i (j + 1) ?cm1"
      by (subst ca2_j_loop.simps) (simp add: True cnt wr)
    from "1.IH" [OF True cnt wr wf1 "1.prems"(2,3)] "1.prems"(4)
    obtain cm' where res: "ca2_j_loop W H R U i (j + 1) ?cm1 = Inr cm'"
      and wf': "wf_grid cm' H W"
      and cells: "\<forall>a b. if a = nat i \<and> nat (j + 1) \<le> b \<and> b < nat W
                         then cm' ! a ! b = 0 \<or> cm' ! a ! b = 1
                         else cm' ! a ! b = ?cm1 ! a ! b"
      by auto
    have li: "nat i < length cm" and lj: "nat j < length (cm ! nat i)"
      using in_vec_wf [OF "1.prems" True] by (auto simp: in_vec_def)
    have "if a = nat i \<and> nat j \<le> b \<and> b < nat W then cm' ! a ! b = 0 \<or> cm' ! a ! b = 1
          else cm' ! a ! b = cm ! a ! b" for a b
    proof (cases "a = nat i \<and> b = nat j")
      case True
      then have "cm' ! a ! b = ?v"
        using cells li lj "1.prems"(4) by (simp add: nat_add_distrib)
      then show ?thesis
        using True \<open>j < W\<close> "1.prems"(4) apply_rule_binary [of "window_sum cm W H R i j" R U]
        by auto
    next
      case False
      then have "?cm1 ! a ! b = cm ! a ! b"
        using li by (auto simp: nth_list_update)
      then show ?thesis
        using cells [rule_format, of a b] False "1.prems"(4)
        by (auto simp: nat_add_distrib split: if_splits)
    qed
    then show ?thesis using unfold res wf' by simp
  qed
qed

lemma ca2_i_loop_binary:
  "wf_grid cm H W \<Longrightarrow> 0 \<le> i \<Longrightarrow>
   \<exists>cm'. ca2_i_loop W H R U i cm = Inr cm' \<and> wf_grid cm' H W \<and>
     (\<forall>a b. if nat i \<le> a \<and> a < nat H \<and> b < nat W then cm' ! a ! b = 0 \<or> cm' ! a ! b = 1
            else cm' ! a ! b = cm ! a ! b)"
proof (induction W H R U i cm rule: ca2_i_loop.induct)
  case (1 W H R U i cm)
  show ?case
  proof (cases "i < H")
    case False
    then show ?thesis
      using "1.prems" by (auto simp: ca2_i_loop.simps [of W H R U i cm])
  next
    case True
    from ca2_j_loop_binary [OF "1.prems" True, of 0 R U]
    obtain cm1 where row: "ca2_j_loop W H R U i 0 cm = Inr cm1"
      and wf1: "wf_grid cm1 H W"
      and cells1: "\<forall>a b. if a = nat i \<and> b < nat W then cm1 ! a ! b = 0 \<or> cm1 ! a ! b = 1
                          else cm1 ! a ! b = cm ! a ! b"
      by auto
    have unfold: "ca2_i_loop W H R U i cm = ca2_i_loop W H R U (i + 1) cm1"
      by (subst ca2_i_loop.simps) (simp add: True row)
    from "1.IH" [OF True row wf1] "1.prems"(2)
    obtain cm' where res: "ca2_i_loop W H R U (i + 1) cm1 = Inr cm'"
      and wf': "wf_grid cm' H W"
      and cells: "\<forall>a b. if nat (i + 1) \<le> a \<and> a < nat H \<and> b < nat W
                         then cm' ! a ! b = 0 \<or> cm' ! a ! b = 1
                         else cm' ! a ! b = cm1 ! a ! b"
      by auto
    have "if nat i \<le> a \<and> a < nat H \<and> b < nat W then cm' ! a ! b = 0 \<or> cm' ! a ! b = 1
          else cm' ! a ! b = cm ! a ! b" for a b
      using cells [rule_format, of a b] cells1 [rule_format, of a b] True "1.prems"(2)
      by (auto simp: nat_add_distrib split: if_splits)
    then show ?thesis using unfold res wf' by simp
  qed
qed

lemma cellularAutomata2_binary:
  assumes "wf_grid m H W"
  shows "\<exists>g. cellularAutomata2 gn m W H R U = Inr g \<and> wf_grid g H W \<and>
           list_all (list_all (\<lambda>v. v = 0 \<or> v = 1)) g"
proof -
  from ca2_i_loop_binary [OF assms, of 0 R U]
  obtain g where g: "cellularAutomata2 gn m W H R U = Inr g" and wf: "wf_grid g H W"
    and cells: "\<forall>a b. if a < nat H \<and> b < nat W then g ! a ! b = 0 \<or> g ! a ! b = 1
                       else g ! a ! b = m ! a ! b"
    by (auto simp: cellularAutomata2_def)
  have "g ! a ! b = 0 \<or> g ! a ! b = 1" if "a < length g" and "b < length (g ! a)" for a b
  proof -
    have "a < nat H" and "b < nat W"
      using wf that by (auto simp: wf_grid_def list_all_length)
    with cells [rule_format, of a b] show ?thesis by simp
  qed
  then have "list_all (list_all (\<lambda>v. v = 0 \<or> v = 1)) g"
    by (simp add: list_all_length)
  with g wf show ?thesis by blast
qed

text \<open>
  Claim C1: the output cell at \<open>(i, j)\<close> is 1 if the sum of the input grid's values over
  the in-bounds part of the window \<open>[i-R,i+R] \<times> [j-R,j+R]\<close>, divided by \<open>(2R+1)\<^sup>2\<close>, is
  greater than \<open>U\<close>, and 0 otherwise. The version of lines 34-60 does this
  (\<open>cellularAutomata_rule\<close>). The version of lines 257-283 does not: on a grid of
  3 rows and 2 columns filled with 1, with \<open>R = 1\<close> and \<open>U = 0.5\<close>, the window of cell
  \<open>(1, 0)\<close> sums to 6 in the input and 6/9 exceeds 0.5, yet the cell comes out 0, because
  row 0 had been overwritten with 0 before row 1 was counted.
\<close>

theorem cellularAutomata2_breaks_rule:
  "wf_grid [[1, 1], [1, 1], [1, 1]] 3 2 \<and>
   cellularAutomata2 gen0 [[1, 1], [1, 1], [1, 1]] 2 3 1 (1 / 2) = Inr [[0, 0], [0, 0], [0, 0]] \<and>
   window_sum [[1, 1], [1, 1], [1, 1]] 2 3 1 1 0 = 6 \<and>
   spec_cell [[1, 1], [1, 1], [1, 1]] 2 3 1 (1 / 2) 1 0 = 1 \<and>
   cellularAutomata gen0 [[1, 1], [1, 1], [1, 1]] 2 3 1 (1 / 2) = Inr [[0, 0], [1, 1], [0, 0]]"
  by (simp add: wf_grid_def cellularAutomata2_def cellularAutomata_def
      ca_i_loop.simps ca_j_loop.simps ca2_i_loop.simps ca2_j_loop.simps
      count_di.simps count_dj.simps map_read_def map_write_def in_vec_def apply_rule_def
      spec_cell_def window_sum_def window_values_def upto_rec1)

text \<open>
  Claim C2: the update is synchronous, every output cell is computed from the input grid's
  neighbourhood and never from cells updated earlier in the same pass. The version of
  lines 34-60 is (\<open>cellularAutomata_synchronous\<close>). The version of lines 257-283 is
  not: two input grids of 3 by 3 that differ only in cell \<open>(0, 1)\<close> hold the same values
  on the window of cell \<open>(2, 1)\<close>, and the outputs differ in cell \<open>(2, 1)\<close>.
\<close>

theorem cellularAutomata2_not_synchronous:
  "wf_grid [[0, 0, 1], [1, 1, 1], [1, 1, 1]] 3 3 \<and>
   wf_grid [[0, 1, 1], [1, 1, 1], [1, 1, 1]] 3 3 \<and>
   same_window [[0, 0, 1], [1, 1, 1], [1, 1, 1]] [[0, 1, 1], [1, 1, 1], [1, 1, 1]] 3 3 1 2 1 \<and>
   cellularAutomata2 gen0 [[0, 0, 1], [1, 1, 1], [1, 1, 1]] 3 3 1 (1 / 2)
     = Inr [[0, 0, 0], [0, 1, 0], [0, 0, 0]] \<and>
   cellularAutomata2 gen0 [[0, 1, 1], [1, 1, 1], [1, 1, 1]] 3 3 1 (1 / 2)
     = Inr [[0, 1, 0], [1, 1, 1], [0, 1, 0]]"
  by (simp add: wf_grid_def same_window_def window_values_def upto_rec1
      cellularAutomata2_def ca2_i_loop.simps ca2_j_loop.simps
      count_di.simps count_dj.simps map_read_def map_write_def in_vec_def apply_rule_def)

section \<open>cellularAutomata: determinism and binary output\<close>

text \<open>
  Claim C7: for a fixed input grid, width, height, radius and threshold, two invocations
  of cellularAutomata produce the same result, whatever generators the two invocations
  construct from the clock. This holds of both versions.
\<close>

theorem cellularAutomata_deterministic:
  "cellularAutomata gn m W H R U = cellularAutomata gn' m W H R U \<and>
   cellularAutomata2 gn m W H R U = cellularAutomata2 gn' m W H R U"
  by (simp add: cellularAutomata_def cellularAutomata2_def)

text \<open>
  Claim C10: whatever values the input grid of \<open>H\<close> rows and \<open>W\<close> columns holds, every
  cell of the grid cellularAutomata returns is 0 or 1. This holds of both versions.
\<close>

theorem cellularAutomata_binary:
  assumes "wf_grid m H W"
  shows "(\<exists>g. cellularAutomata gn m W H R U = Inr g \<and> wf_grid g H W \<and>
              list_all (list_all (\<lambda>v. v = 0 \<or> v = 1)) g) \<and>
         (\<exists>g. cellularAutomata2 gn m W H R U = Inr g \<and> wf_grid g H W \<and>
              list_all (list_all (\<lambda>v. v = 0 \<or> v = 1)) g)"
proof -
  from cellularAutomata_spec [OF assms, of gn R U]
  obtain g where g: "cellularAutomata gn m W H R U = Inr g" and wf: "wf_grid g H W"
    and cells: "\<forall>a b. a < nat H \<and> b < nat W \<longrightarrow> g ! a ! b = spec_cell m W H R U (int a) (int b)"
    by blast
  have "g ! a ! b = 0 \<or> g ! a ! b = 1" if "a < length g" and "b < length (g ! a)" for a b
  proof -
    have "a < nat H" and "b < nat W"
      using wf that by (auto simp: wf_grid_def list_all_length)
    with cells show ?thesis by (simp add: spec_cell_def)
  qed
  then have "list_all (list_all (\<lambda>v. v = 0 \<or> v = 1)) g"
    by (simp add: list_all_length)
  with g wf cellularAutomata2_binary [OF assms, of gn R U] show ?thesis by blast
qed

theorem cellularAutomata_binary_witness:
  "wf_grid [[7, - 3], [2, 40]] 2 2 \<and>
   (\<exists>g. cellularAutomata gen0 [[7, - 3], [2, 40]] 2 2 1 (1 / 2) = Inr g \<and> wf_grid g 2 2 \<and>
        list_all (list_all (\<lambda>v. v = 0 \<or> v = 1)) g) \<and>
   (\<exists>g. cellularAutomata2 gen0 [[7, - 3], [2, 40]] 2 2 1 (1 / 2) = Inr g \<and> wf_grid g 2 2 \<and>
        list_all (list_all (\<lambda>v. v = 0 \<or> v = 1)) g)"
proof -
  have h: "wf_grid [[7, - 3], [2, 40]] 2 2" by (simp add: wf_grid_def)
  show ?thesis using h cellularAutomata_binary [OF h, of gen0 1 "1 / 2"] by simp
qed

section \<open>drunkAgent: what one step does\<close>

lemma distDirection_range: "0 \<le> fst (distDirection g) \<and> fst (distDirection g) < 4"
  by (simp add: distDirection_def uniform_int_def)

lemma ones_kept_refl: "ones_kept m m"
  by (simp add: ones_kept_def list_all2_conv_all_nth)

lemma ones_kept_trans: "ones_kept a b \<Longrightarrow> ones_kept b c \<Longrightarrow> ones_kept a c"
  unfolding ones_kept_def list_all2_conv_all_nth by auto

lemma nth_update_cell:
  "a < length m \<Longrightarrow>
   m[a := (m ! a)[b := v]] ! k = (if k = a then (m ! a)[b := v] else m ! k)"
  by (simp add: nth_list_update)

lemma ones_kept_write:
  assumes "map_write m i j 1 = Inr m'"
  shows "ones_kept m m'"
proof -
  from assms have iv: "in_vec m i j" and m': "m' = m[nat i := (m ! nat i)[nat j := 1]]"
    by (auto simp: map_write_def split: if_splits)
  from iv have a: "nat i < length m" and b: "nat j < length (m ! nat i)"
    by (auto simp: in_vec_def)
  show ?thesis
    unfolding ones_kept_def list_all2_conv_all_nth m'
    using b by (auto simp: nth_update_cell [OF a] nth_list_update)
qed

lemma ones_kept_wf: "ones_kept m m' \<Longrightarrow> wf_grid m H W \<Longrightarrow> wf_grid m' H W"
  unfolding ones_kept_def wf_grid_def list_all2_conv_all_nth list_all_length by auto

lemma room_y_loop_effect:
  "room_y_loop x y endY s = Inr s' \<Longrightarrow>
   \<exists>nm ws. s' = s\<lparr>newMap := nm, writes := writes s @ ws\<rparr> \<and> ones_kept (newMap s) nm \<and>
            set ws \<subseteq> {x} \<times> {y..endY}"
proof (induction x y endY s rule: room_y_loop.induct)
  case (1 x y endY s)
  show ?case
  proof (cases "y \<le> endY")
    case False
    with "1.prems" have "s' = s" by (simp add: room_y_loop.simps [of x y endY s])
    then show ?thesis
      by (intro exI [of _ "newMap s"] exI [of _ "[]"]) (simp add: ones_kept_refl)
  next
    case True
    with "1.prems" obtain nm where wr: "map_write (newMap s) x y 1 = Inr nm"
      and rest: "room_y_loop x (y + 1) endY (s\<lparr>newMap := nm, writes := writes s @ [(x, y)]\<rparr>) = Inr s'"
      by (auto simp: room_y_loop.simps [of x y endY s] split: sum.splits)
    from "1.IH" [OF True wr rest]
    obtain nm' ws where s': "s' = s\<lparr>newMap := nm', writes := writes s @ (x, y) # ws\<rparr>"
      and k: "ones_kept nm nm'" and ws: "set ws \<subseteq> {x} \<times> {y + 1..endY}"
      by auto
    have "ones_kept (newMap s) nm'"
      using ones_kept_write [OF wr] k by (rule ones_kept_trans)
    moreover have "set ((x, y) # ws) \<subseteq> {x} \<times> {y..endY}"
      using ws True by auto
    ultimately show ?thesis using s' by blast
  qed
qed

lemma room_x_loop_effect:
  "room_x_loop x endX startY endY s = Inr s' \<Longrightarrow>
   \<exists>nm ws. s' = s\<lparr>newMap := nm, writes := writes s @ ws\<rparr> \<and> ones_kept (newMap s) nm \<and>
            set ws \<subseteq> {x..endX} \<times> {startY..endY}"
proof (induction x endX startY endY s rule: room_x_loop.induct)
  case (1 x endX startY endY s)
  show ?case
  proof (cases "x \<le> endX")
    case False
    with "1.prems" have "s' = s" by (simp add: room_x_loop.simps [of x endX startY endY s])
    then show ?thesis
      by (intro exI [of _ "newMap s"] exI [of _ "[]"]) (simp add: ones_kept_refl)
  next
    case True
    with "1.prems" obtain s1 where row: "room_y_loop x startY endY s = Inr s1"
      and rest: "room_x_loop (x + 1) endX startY endY s1 = Inr s'"
      by (auto simp: room_x_loop.simps [of x endX startY endY s] split: sum.splits)
    from room_y_loop_effect [OF row]
    obtain nm1 ws1 where s1: "s1 = s\<lparr>newMap := nm1, writes := writes s @ ws1\<rparr>"
      and k1: "ones_kept (newMap s) nm1" and ws1: "set ws1 \<subseteq> {x} \<times> {startY..endY}"
      by blast
    from "1.IH" [OF True row rest]
    obtain nm' ws where s': "s' = s1\<lparr>newMap := nm', writes := writes s1 @ ws\<rparr>"
      and k: "ones_kept (newMap s1) nm'" and ws: "set ws \<subseteq> {x + 1..endX} \<times> {startY..endY}"
      by blast
    have "s' = s\<lparr>newMap := nm', writes := writes s @ (ws1 @ ws)\<rparr>"
      using s' s1 by simp
    moreover have "ones_kept (newMap s) nm'"
      using k1 k s1 by (auto intro: ones_kept_trans)
    moreover have "set (ws1 @ ws) \<subseteq> {x..endX} \<times> {startY..endY}"
      using ws1 ws True by auto
    ultimately show ?thesis by blast
  qed
qed

lemma mark_phase_effect:
  "mark_phase s = Inr s1 \<Longrightarrow>
   \<exists>nm. s1 = s\<lparr>newMap := nm, writes := writes s @ [(agentX s, agentY s)]\<rparr> \<and>
        ones_kept (newMap s) nm"
  by (auto simp: mark_phase_def ones_kept_write split: sum.splits)

lemma room_phase_effect:
  assumes "room_phase p s = Inr (f, s2)"
  shows "\<exists>g nm ws. s2 = s\<lparr>gen := g, newMap := nm, writes := writes s @ ws,
                     currentProbRoom := (if f then da_probGenerateRoom p
                                         else currentProbRoom s + da_probIncreaseRoom p)\<rparr> \<and>
           ones_kept (newMap s) nm \<and>
           set ws \<subseteq> {0..da_H p - 1} \<times> {0..da_W p - 1}"
proof (cases "fst (distProb (gen s)) < currentProbRoom s")
  case False
  with assms have "f = False"
    and "s2 = s\<lparr>gen := snd (distProb (gen s)),
                currentProbRoom := currentProbRoom s + da_probIncreaseRoom p\<rparr>"
    by (auto simp: room_phase_def Let_def split: prod.splits)
  then show ?thesis
    by (intro exI [of _ "snd (distProb (gen s))"] exI [of _ "newMap s"] exI [of _ "[]"])
       (simp add: ones_kept_refl)
next
  case True
  let ?s1 = "s\<lparr>gen := snd (distProb (gen s))\<rparr>"
  let ?halfX = "cdiv (da_roomSizeX p) 2" and ?halfY = "cdiv (da_roomSizeY p) 2"
  from True assms obtain s' where
    loop: "room_x_loop (max 0 (agentX s - ?halfX)) (min (da_H p - 1) (agentX s + ?halfX))
             (max 0 (agentY s - ?halfY)) (min (da_W p - 1) (agentY s + ?halfY)) ?s1 = Inr s'"
    and f: "f = True" and s2: "s2 = s'\<lparr>currentProbRoom := da_probGenerateRoom p\<rparr>"
    by (auto simp: room_phase_def Let_def split: prod.splits sum.splits)
  from room_x_loop_effect [OF loop]
  obtain nm ws where s': "s' = ?s1\<lparr>newMap := nm, writes := writes ?s1 @ ws\<rparr>"
    and k: "ones_kept (newMap ?s1) nm"
    and ws: "set ws \<subseteq> {max 0 (agentX s - ?halfX)..min (da_H p - 1) (agentX s + ?halfX)} \<times>
                       {max 0 (agentY s - ?halfY)..min (da_W p - 1) (agentY s + ?halfY)}"
    by blast
  have "set ws \<subseteq> {0..da_H p - 1} \<times> {0..da_W p - 1}"
    using ws by auto
  then show ?thesis
    using s2 s' k f
    by (intro exI [of _ "snd (distProb (gen s))"] exI [of _ nm] exI [of _ ws]) simp
qed

lemma change_phase_effect:
  assumes "change_phase p s = (c, s3)"
  shows "\<exists>g d. s3 = s\<lparr>gen := g, currentDirection := d,
                     currentProbChange := (if c then da_probChangeDirection p
                                           else currentProbChange s + da_probIncreaseChange p)\<rparr> \<and>
           (0 \<le> currentDirection s \<and> currentDirection s < 4 \<longrightarrow> 0 \<le> d \<and> d < 4)"
proof (cases "fst (distProb (gen s)) < currentProbChange s")
  case True
  let ?g = "snd (distProb (gen s))"
  from True assms have "c = True"
    and "s3 = s\<lparr>gen := snd (distDirection ?g), currentDirection := fst (distDirection ?g),
                currentProbChange := da_probChangeDirection p\<rparr>"
    by (auto simp: change_phase_def Let_def split: prod.splits)
  then show ?thesis
    using distDirection_range [of ?g]
    by (intro exI [of _ "snd (distDirection ?g)"] exI [of _ "fst (distDirection ?g)"]) simp
next
  case False
  with assms have "c = False"
    and "s3 = s\<lparr>gen := snd (distProb (gen s)),
                currentProbChange := currentProbChange s + da_probIncreaseChange p\<rparr>"
    by (auto simp: change_phase_def Let_def split: prod.splits)
  then show ?thesis
    by (intro exI [of _ "snd (distProb (gen s))"] exI [of _ "currentDirection s"]) simp
qed

lemma move_phase_effect:
  assumes "move_phase p s = Inr (b, s4)"
  shows "\<exists>g d nx ny.
           s4 = s\<lparr>gen := g, currentDirection := d,
                   currentProbChange := (if b then da_probChangeDirection p
                                         else currentProbChange s),
                   agentX := nx, agentY := ny\<rparr> \<and>
           0 \<le> d \<and> d < 4 \<and>
           (if b then nx = agentX s \<and> ny = agentY s else inside (da_H p) (da_W p) (nx, ny))"
proof -
  from assms obtain dx dy where dir: "directions_at (currentDirection s) = Inr (dx, dy)"
    by (auto simp: move_phase_def split: sum.splits)
  then have rng: "0 \<le> currentDirection s \<and> currentDirection s < 4"
    by (auto simp: directions_at_def directions_def split: if_splits)
  show ?thesis
  proof (cases "0 \<le> agentX s + dx \<and> agentX s + dx < da_H p \<and> 0 \<le> agentY s + dy \<and> agentY s + dy < da_W p")
    case True
    with assms dir have "b = False" and "s4 = s\<lparr>agentX := agentX s + dx, agentY := agentY s + dy\<rparr>"
      by (auto simp: move_phase_def Let_def)
    then show ?thesis using True rng
      by (intro exI [of _ "gen s"] exI [of _ "currentDirection s"]
            exI [of _ "agentX s + dx"] exI [of _ "agentY s + dy"]) (simp add: inside_def)
  next
    case False
    with assms dir have "b = True"
      and "s4 = s\<lparr>gen := snd (distDirection (gen s)), currentDirection := fst (distDirection (gen s)),
                  currentProbChange := da_probChangeDirection p\<rparr>"
      by (auto simp: move_phase_def Let_def split: prod.splits)
    then show ?thesis using distDirection_range [of "gen s"]
      by (intro exI [of _ "snd (distDirection (gen s))"] exI [of _ "fst (distDirection (gen s))"]
            exI [of _ "agentX s"] exI [of _ "agentY s"]) simp
  qed
qed

lemma drunk_step_effect:
  assumes "drunk_step p s = Inr s'"
  shows "\<exists>e ws. steps s' = steps s @ [e] \<and> pre e = snap s \<and> post e = snap s' \<and>
           room_ramp p e \<and> change_ramp p e \<and>
           currentMap s' = currentMap s \<and> ones_kept (newMap s) (newMap s') \<and>
           writes s' = writes s @ (agentX s, agentY s) # ws \<and>
           set ws \<subseteq> {0..da_H p - 1} \<times> {0..da_W p - 1} \<and>
           0 \<le> currentDirection s' \<and> currentDirection s' < 4 \<and>
           (if bounced e then agentX s' = agentX s \<and> agentY s' = agentY s
            else inside (da_H p) (da_W p) (agentX s', agentY s'))"
proof -
  from assms obtain s1 f s2 c s3 b s4 where
    mark: "mark_phase s = Inr s1" and room: "room_phase p s1 = Inr (f, s2)"
    and change: "change_phase p s2 = (c, s3)" and move: "move_phase p s3 = Inr (b, s4)"
    and s': "s' = s4\<lparr>steps := steps s4 @
               [\<lparr>pre = snap s, roomFired = f, changeFired = c, bounced = b, post = snap s4\<rparr>]\<rparr>"
    by (auto simp: drunk_step_def Let_def split: sum.splits prod.splits)
  let ?e = "\<lparr>pre = snap s, roomFired = f, changeFired = c, bounced = b, post = snap s4\<rparr>"
  from mark_phase_effect [OF mark] obtain nm1 where
    s1: "s1 = s\<lparr>newMap := nm1, writes := writes s @ [(agentX s, agentY s)]\<rparr>"
    and k1: "ones_kept (newMap s) nm1" by blast
  from room_phase_effect [OF room] obtain g2 nm2 ws where
    s2: "s2 = s1\<lparr>gen := g2, newMap := nm2, writes := writes s1 @ ws,
                  currentProbRoom := (if f then da_probGenerateRoom p
                                      else currentProbRoom s1 + da_probIncreaseRoom p)\<rparr>"
    and k2: "ones_kept (newMap s1) nm2"
    and ws: "set ws \<subseteq> {0..da_H p - 1} \<times> {0..da_W p - 1}" by blast
  from change_phase_effect [OF change] obtain g3 d3 where
    s3: "s3 = s2\<lparr>gen := g3, currentDirection := d3,
                  currentProbChange := (if c then da_probChangeDirection p
                                        else currentProbChange s2 + da_probIncreaseChange p)\<rparr>"
    by blast
  from move_phase_effect [OF move] obtain g4 d4 nx ny where
    s4: "s4 = s3\<lparr>gen := g4, currentDirection := d4,
                  currentProbChange := (if b then da_probChangeDirection p
                                        else currentProbChange s3),
                  agentX := nx, agentY := ny\<rparr>"
    and d4: "0 \<le> d4" "d4 < 4"
    and pos4: "if b then nx = agentX s3 \<and> ny = agentY s3 else inside (da_H p) (da_W p) (nx, ny)"
    by blast
  have frame4: "steps s4 = steps s" "currentMap s4 = currentMap s" "newMap s4 = nm2"
    "writes s4 = writes s @ (agentX s, agentY s) # ws"
    "currentProbRoom s4 = (if f then da_probGenerateRoom p
                           else currentProbRoom s + da_probIncreaseRoom p)"
    "currentDirection s4 = d4"
    by (simp_all add: s4 s3 s2 s1)
  have chg: "currentProbChange s4 =
      (if c \<or> b then da_probChangeDirection p else currentProbChange s + da_probIncreaseChange p)"
    by (simp add: s4 s3 s2 s1)
  have pos: "if b then agentX s4 = agentX s \<and> agentY s4 = agentY s
             else inside (da_H p) (da_W p) (agentX s4, agentY s4)"
    using pos4 by (simp add: s4 s3 s2 s1)
  have k: "ones_kept (newMap s) nm2"
    using k1 k2 s1 by (auto intro: ones_kept_trans)
  show ?thesis
    by (intro exI [of _ ?e] exI [of _ ws])
       (use frame4 chg pos k ws d4 in \<open>simp add: s' snap_def room_ramp_def change_ramp_def\<close>)
qed

section \<open>drunkAgent: from one step to the loops\<close>

lemma step_loop_preserves:
  assumes "\<forall>s s'. P s \<longrightarrow> drunk_step p s = Inr s' \<longrightarrow> P s'"
    and "P s" and "step_loop p k s = Inr s'"
  shows "P s'"
  using assms
proof (induction p k s rule: step_loop.induct)
  case (1 p k s)
  show ?case
  proof (cases "k < da_I p")
    case False
    with "1.prems" show ?thesis by (simp add: step_loop.simps [of p k s])
  next
    case True
    with "1.prems"(3) obtain s1 where one: "drunk_step p s = Inr s1"
      and rest: "step_loop p (k + 1) s1 = Inr s'"
      by (auto simp: step_loop.simps [of p k s] split: sum.splits)
    have "P s1" using "1.prems"(1,2) one by blast
    then show ?thesis by (rule "1.IH" [OF True one "1.prems"(1) _ rest])
  qed
qed

lemma walk_loop_preserves:
  assumes "\<forall>s s'. P s \<longrightarrow> drunk_step p s = Inr s' \<longrightarrow> P s'"
    and "\<forall>s. P s \<longrightarrow> P (s\<lparr>gen := snd (distDirection (gen s)),
                              currentDirection := fst (distDirection (gen s))\<rparr>)"
    and "P s" and "walk_loop p k s = Inr s'"
  shows "P s'"
  using assms
proof (induction p k s rule: walk_loop.induct)
  case (1 p k s)
  show ?case
  proof (cases "k < da_J p")
    case False
    with "1.prems" show ?thesis by (simp add: walk_loop.simps [of p k s])
  next
    case True
    let ?s0 = "s\<lparr>gen := snd (distDirection (gen s)),
                  currentDirection := fst (distDirection (gen s))\<rparr>"
    from True "1.prems"(4) obtain s1 where walk: "step_loop p 0 ?s0 = Inr s1"
      and rest: "walk_loop p (k + 1) s1 = Inr s'"
      by (auto simp: walk_loop.simps [of p k s] split: sum.splits prod.splits)
    have "P ?s0" using "1.prems"(2,3) by blast
    then have "P s1" by (rule step_loop_preserves [OF "1.prems"(1) _ walk])
    then show ?thesis
      by (rule "1.IH" [OF True refl prod.collapse walk "1.prems"(1,2) _ rest])
  qed
qed

lemma step_loop_total:
  assumes "\<forall>s. Q s \<longrightarrow> (\<exists>s'. drunk_step p s = Inr s' \<and> Q s')" and "Q s"
  shows "\<exists>s'. step_loop p k s = Inr s' \<and> Q s'"
  using assms
proof (induction p k s rule: step_loop.induct)
  case (1 p k s)
  show ?case
  proof (cases "k < da_I p")
    case False
    with "1.prems" show ?thesis by (simp add: step_loop.simps [of p k s])
  next
    case True
    from "1.prems" obtain s1 where one: "drunk_step p s = Inr s1" and "Q s1"
      by blast
    with "1.IH" [OF True one "1.prems"(1)] obtain s' where "step_loop p (k + 1) s1 = Inr s'" and "Q s'"
      by blast
    then show ?thesis using True one by (subst step_loop.simps) simp
  qed
qed

lemma walk_loop_total:
  assumes "\<forall>s. Q s \<longrightarrow> (\<exists>s'. drunk_step p s = Inr s' \<and> Q s')"
    and "\<forall>s. Q s \<longrightarrow> Q (s\<lparr>gen := snd (distDirection (gen s)),
                              currentDirection := fst (distDirection (gen s))\<rparr>)"
    and "Q s"
  shows "\<exists>s'. walk_loop p k s = Inr s' \<and> Q s'"
  using assms
proof (induction p k s rule: walk_loop.induct)
  case (1 p k s)
  show ?case
  proof (cases "k < da_J p")
    case False
    with "1.prems" show ?thesis by (simp add: walk_loop.simps [of p k s])
  next
    case True
    let ?s0 = "s\<lparr>gen := snd (distDirection (gen s)),
                  currentDirection := fst (distDirection (gen s))\<rparr>"
    have "Q ?s0" using "1.prems"(2,3) by blast
    from step_loop_total [OF "1.prems"(1) this]
    obtain s1 where walk: "step_loop p 0 ?s0 = Inr s1" and q1: "Q s1" by blast
    have "\<exists>s'. walk_loop p (k + 1) s1 = Inr s' \<and> Q s'"
      by (rule "1.IH" [OF True refl prod.collapse walk "1.prems"(1,2) q1])
    then obtain s' where "walk_loop p (k + 1) s1 = Inr s'" and "Q s'" by auto
    then show ?thesis using True walk
      by (subst walk_loop.simps) (simp add: split_beta)
  qed
qed

lemma step_loop_count:
  "step_loop p k s = Inr s' \<Longrightarrow> length (steps s') = length (steps s) + nat (da_I p - k)"
proof (induction p k s rule: step_loop.induct)
  case (1 p k s)
  show ?case
  proof (cases "k < da_I p")
    case False
    with "1.prems" show ?thesis by (simp add: step_loop.simps [of p k s])
  next
    case True
    with "1.prems" obtain s1 where one: "drunk_step p s = Inr s1"
      and rest: "step_loop p (k + 1) s1 = Inr s'"
      by (auto simp: step_loop.simps [of p k s] split: sum.splits)
    from drunk_step_effect [OF one] have "length (steps s1) = length (steps s) + 1" by auto
    with "1.IH" [OF True one rest] True show ?thesis by (simp add: nat_diff_distrib)
  qed
qed

lemma walk_loop_count:
  "walk_loop p k s = Inr s' \<Longrightarrow>
   length (steps s') = length (steps s) + nat (da_J p - k) * nat (da_I p)"
proof (induction p k s rule: walk_loop.induct)
  case (1 p k s)
  show ?case
  proof (cases "k < da_J p")
    case False
    with "1.prems" show ?thesis by (simp add: walk_loop.simps [of p k s])
  next
    case True
    let ?s0 = "s\<lparr>gen := snd (distDirection (gen s)),
                  currentDirection := fst (distDirection (gen s))\<rparr>"
    from True "1.prems" obtain s1 where walk: "step_loop p 0 ?s0 = Inr s1"
      and rest: "walk_loop p (k + 1) s1 = Inr s'"
      by (auto simp: walk_loop.simps [of p k s] split: sum.splits prod.splits)
    from step_loop_count [OF walk] have l1: "length (steps s1) = length (steps s) + nat (da_I p)"
      by simp
    have "nat (da_J p - k) = nat (da_J p - (k + 1)) + 1"
      using True by simp
    with "1.IH" [OF True refl prod.collapse walk rest] l1 show ?thesis
      by (simp add: algebra_simps)
  qed
qed

lemma walk_loop_no_steps:
  "da_I p \<le> 0 \<Longrightarrow> \<exists>g d. walk_loop p k s = Inr (s\<lparr>gen := g, currentDirection := d\<rparr>)"
proof (induction p k s rule: walk_loop.induct)
  case (1 p k s)
  show ?case
  proof (cases "k < da_J p")
    case False
    then have "walk_loop p k s = Inr (s\<lparr>gen := gen s, currentDirection := currentDirection s\<rparr>)"
      by (simp add: walk_loop.simps [of p k s])
    then show ?thesis by blast
  next
    case True
    let ?s0 = "s\<lparr>gen := snd (distDirection (gen s)),
                  currentDirection := fst (distDirection (gen s))\<rparr>"
    have walk: "step_loop p 0 ?s0 = Inr ?s0"
      using "1.prems" by (simp add: step_loop.simps [of p 0 ?s0])
    from "1.IH" [OF True refl prod.collapse walk "1.prems"]
    obtain g d where "walk_loop p (k + 1) ?s0 = Inr (?s0\<lparr>gen := g, currentDirection := d\<rparr>)"
      by blast
    then have "walk_loop p k s = Inr (s\<lparr>gen := g, currentDirection := d\<rparr>)"
      using True walk by (subst walk_loop.simps) (simp add: split_beta)
    then show ?thesis by blast
  qed
qed

section \<open>drunkAgent: no access leaves the grid\<close>

lemma room_y_loop_returns:
  "wf_grid (newMap s) H W \<Longrightarrow> 0 \<le> x \<Longrightarrow> x < H \<Longrightarrow> 0 \<le> y \<Longrightarrow> endY < W \<Longrightarrow>
   \<exists>s'. room_y_loop x y endY s = Inr s'"
proof (induction x y endY s rule: room_y_loop.induct)
  case (1 x y endY s)
  show ?case
  proof (cases "y \<le> endY")
    case False
    then show ?thesis by (simp add: room_y_loop.simps [of x y endY s])
  next
    case True
    let ?nm = "(newMap s)[nat x := (newMap s ! nat x)[nat y := 1]]"
    have wr: "map_write (newMap s) x y 1 = Inr ?nm"
      using "1.prems" True by (simp add: map_write_wf)
    have "wf_grid (newMap (s\<lparr>newMap := ?nm, writes := writes s @ [(x, y)]\<rparr>)) H W"
      using "1.prems"(1) by (simp add: wf_grid_update)
    from "1.IH" [OF True wr this "1.prems"(2,3)] "1.prems"(4,5)
    obtain s' where "room_y_loop x (y + 1) endY (s\<lparr>newMap := ?nm, writes := writes s @ [(x, y)]\<rparr>) = Inr s'"
      by auto
    then show ?thesis using True wr by (subst room_y_loop.simps) simp
  qed
qed

lemma room_x_loop_returns:
  "wf_grid (newMap s) H W \<Longrightarrow> 0 \<le> x \<Longrightarrow> endX < H \<Longrightarrow> 0 \<le> startY \<Longrightarrow> endY < W \<Longrightarrow>
   \<exists>s'. room_x_loop x endX startY endY s = Inr s'"
proof (induction x endX startY endY s rule: room_x_loop.induct)
  case (1 x endX startY endY s)
  show ?case
  proof (cases "x \<le> endX")
    case False
    then show ?thesis by (simp add: room_x_loop.simps [of x endX startY endY s])
  next
    case True
    from room_y_loop_returns [OF "1.prems"(1,2) _ "1.prems"(4,5)] True "1.prems"(3)
    obtain s1 where row: "room_y_loop x startY endY s = Inr s1" by auto
    from room_y_loop_effect [OF row] "1.prems"(1)
    have "wf_grid (newMap s1) H W" by (auto intro: ones_kept_wf)
    from "1.IH" [OF True row this _ "1.prems"(3,4,5)] "1.prems"(2)
    obtain s' where "room_x_loop (x + 1) endX startY endY s1 = Inr s'" by auto
    then show ?thesis using True row by (subst room_x_loop.simps) simp
  qed
qed

lemma drunk_step_returns:
  assumes "agent_ok p s"
  shows "\<exists>s'. drunk_step p s = Inr s'"
proof -
  let ?H = "da_H p" and ?W = "da_W p"
  from assms have wf: "wf_grid (newMap s) ?H ?W"
    and pos: "0 \<le> agentX s" "agentX s < ?H" "0 \<le> agentY s" "agentY s < ?W"
    and dir: "0 \<le> currentDirection s" "currentDirection s < 4"
    by (simp_all add: agent_ok_def inside_def)
  have "\<exists>s1. mark_phase s = Inr s1"
    using wf pos by (simp add: mark_phase_def map_write_wf)
  then obtain s1 where mark: "mark_phase s = Inr s1" ..
  from mark_phase_effect [OF mark] obtain nm1 where
    s1: "s1 = s\<lparr>newMap := nm1, writes := writes s @ [(agentX s, agentY s)]\<rparr>"
    and k1: "ones_kept (newMap s) nm1" by blast
  have wf1: "wf_grid (newMap s1) ?H ?W" using ones_kept_wf [OF k1 wf] s1 by simp
  have "\<exists>r. room_phase p s1 = Inr r"
  proof (cases "fst (distProb (gen s1)) < currentProbRoom s1")
    case False
    then show ?thesis by (auto simp: room_phase_def Let_def split_beta)
  next
    case True
    let ?s1' = "s1\<lparr>gen := snd (distProb (gen s1))\<rparr>"
    let ?halfX = "cdiv (da_roomSizeX p) 2" and ?halfY = "cdiv (da_roomSizeY p) 2"
    have "wf_grid (newMap ?s1') ?H ?W" using wf1 by simp
    moreover have "0 \<le> max 0 (agentX s1 - ?halfX)" and "0 \<le> max 0 (agentY s1 - ?halfY)"
      by simp_all
    moreover have "min (?H - 1) (agentX s1 + ?halfX) < ?H"
      and "min (?W - 1) (agentY s1 + ?halfY) < ?W"
      by (simp_all add: min_less_iff_disj)
    ultimately have "\<exists>s2. room_x_loop (max 0 (agentX s1 - ?halfX)) (min (?H - 1) (agentX s1 + ?halfX))
        (max 0 (agentY s1 - ?halfY)) (min (?W - 1) (agentY s1 + ?halfY)) ?s1' = Inr s2"
      by (intro room_x_loop_returns)
    then obtain s2 where "room_x_loop (max 0 (agentX s1 - ?halfX)) (min (?H - 1) (agentX s1 + ?halfX))
        (max 0 (agentY s1 - ?halfY)) (min (?W - 1) (agentY s1 + ?halfY)) ?s1' = Inr s2"
      by auto
    with True show ?thesis by (auto simp: room_phase_def Let_def split_beta)
  qed
  then obtain f s2 where room: "room_phase p s1 = Inr (f, s2)" by (metis surj_pair)
  obtain c s3 where change: "change_phase p s2 = (c, s3)" by (metis surj_pair)
  from room_phase_effect [OF room] have d2: "currentDirection s2 = currentDirection s"
    using s1 by auto
  from change_phase_effect [OF change] d2 dir
  have d3: "0 \<le> currentDirection s3 \<and> currentDirection s3 < 4" by auto
  then have "\<exists>r. move_phase p s3 = Inr r"
    by (auto simp: move_phase_def directions_at_def directions_def Let_def split_beta)
  then obtain b s4 where move: "move_phase p s3 = Inr (b, s4)" by (metis surj_pair)
  show ?thesis
    using mark room change move by (simp add: drunk_step_def)
qed

lemma drunk_step_ok:
  assumes "agent_ok p s" and "drunk_step p s = Inr s'"
  shows "agent_ok p s'"
proof -
  from drunk_step_effect [OF assms(2)] obtain e ws where
    st: "steps s' = steps s @ [e]" and post: "post e = snap s'"
    and k: "ones_kept (newMap s) (newMap s')"
    and wr: "writes s' = writes s @ (agentX s, agentY s) # ws"
    and ws: "set ws \<subseteq> {0..da_H p - 1} \<times> {0..da_W p - 1}"
    and dir: "0 \<le> currentDirection s'" "currentDirection s' < 4"
    and pos: "if bounced e then agentX s' = agentX s \<and> agentY s' = agentY s
              else inside (da_H p) (da_W p) (agentX s', agentY s')"
    by blast
  have ins: "inside (da_H p) (da_W p) (agentX s', agentY s')"
    using pos assms(1) by (auto simp: agent_ok_def split: if_splits)
  have "list_all (inside (da_H p) (da_W p)) ws"
    using ws by (auto simp: list_all_iff inside_def)
  then show ?thesis
    using assms(1) ones_kept_wf [OF k] ins dir
    by (simp add: agent_ok_def st wr post snap_def)
qed

lemma agent_ok_start:
  "agent_ok p s \<Longrightarrow>
   agent_ok p (s\<lparr>gen := snd (distDirection (gen s)),
                  currentDirection := fst (distDirection (gen s))\<rparr>)"
  using distDirection_range [of "gen s"] by (simp add: agent_ok_def)

lemma agent_ok_initial:
  "wf_grid m (da_H p) (da_W p) \<Longrightarrow> inside (da_H p) (da_W p) (x, y) \<Longrightarrow>
   agent_ok p (initial_agent g m p x y)"
  by (simp add: agent_ok_def initial_agent_def)

lemma drunkAgent_call_returns:
  assumes "wf_grid m (da_H p) (da_W p)" and "inside (da_H p) (da_W p) (x, y)"
  shows "\<exists>s. drunkAgent_call g m p x y = Inr s \<and> agent_ok p s"
  unfolding drunkAgent_call_def
proof (rule walk_loop_total)
  show "\<forall>s. agent_ok p s \<longrightarrow> (\<exists>s'. drunk_step p s = Inr s' \<and> agent_ok p s')"
    using drunk_step_returns drunk_step_ok by blast
  show "\<forall>s. agent_ok p s \<longrightarrow> agent_ok p (s\<lparr>gen := snd (distDirection (gen s)),
                  currentDirection := fst (distDirection (gen s))\<rparr>)"
    using agent_ok_start by blast
  show "agent_ok p (initial_agent g m p x y)"
    using assms by (rule agent_ok_initial)
qed

lemmas da_eval = drunkAgent_def drunkAgent_call_def initial_agent_def walk_loop.simps step_loop.simps
  drunk_step_def mark_phase_def room_phase_def change_phase_def move_phase_def
  room_x_loop.simps room_y_loop.simps map_write_def in_vec_def distProb_def distDirection_def
  uniform_int_def uniform_real_def directions_at_def directions_def snap_def cdiv_def Let_def

text \<open>
  Claim C3: on a grid of \<open>H\<close> rows and \<open>W\<close> columns, with the agent inside
  \<open>[0, H) \<times> [0, W)\<close> at the call, drunkAgent returns without leaving a vector, the agent
  is inside the grid after every step and at the return, and every cell index the pass
  assigned (corridor marks and room cells) is inside the grid.
\<close>

theorem drunkAgent_in_bounds:
  assumes "wf_grid m H W" and "0 \<le> x" and "x < H" and "0 \<le> y" and "y < W"
  shows "\<exists>s. drunkAgent g m W H J I roomSizeX roomSizeY probGenerateRoom probIncreaseRoom
                probChangeDirection probIncreaseChange x y = Inr s \<and>
             inside H W (agentX s, agentY s) \<and>
             list_all (\<lambda>e. inside H W (s_x (post e), s_y (post e))) (steps s) \<and>
             list_all (inside H W) (writes s)"
proof -
  let ?p = "\<lparr>da_W = W, da_H = H, da_J = J, da_I = I,
        da_roomSizeX = roomSizeX, da_roomSizeY = roomSizeY,
        da_probGenerateRoom = probGenerateRoom, da_probIncreaseRoom = probIncreaseRoom,
        da_probChangeDirection = probChangeDirection,
        da_probIncreaseChange = probIncreaseChange\<rparr>"
  have "wf_grid m (da_H ?p) (da_W ?p)" and "inside (da_H ?p) (da_W ?p) (x, y)"
    using assms by (simp_all add: inside_def)
  from drunkAgent_call_returns [OF this, of g]
  show ?thesis by (auto simp: drunkAgent_def agent_ok_def)
qed

text \<open>
  A run in the corner of a grid of 2 rows and 3 columns: the room of size 3 by 3 centred
  at \<open>(0, 0)\<close> is clamped to the four cells of rows 0-1 and columns 0-1, and the step up
  hits the border.
\<close>

theorem drunkAgent_in_bounds_witness:
  "wf_grid [[0, 0, 0], [0, 0, 0]] 2 3 \<and>
   drunkAgent gen0 [[0, 0, 0], [0, 0, 0]] 3 2 1 1 3 3 (1 / 10) (1 / 20) (1 / 5) (3 / 100) 0 0
     = Inr \<lparr>currentMap = [[0, 0, 0], [0, 0, 0]], newMap = [[1, 1, 0], [1, 1, 0]],
            gen = gen0\<lparr>idx := 5\<rparr>,
            currentProbRoom = 1 / 10, currentProbChange = 1 / 5, currentDirection = 0,
            agentX = 0, agentY = 0, writes = [(0, 0), (0, 0), (0, 1), (1, 0), (1, 1)],
            steps = [\<lparr>pre = \<lparr>s_x = 0, s_y = 0, s_dir = 0, s_probRoom = 1 / 10, s_probChange = 1 / 5\<rparr>,
                      roomFired = True, changeFired = True, bounced = True,
                      post = \<lparr>s_x = 0, s_y = 0, s_dir = 0, s_probRoom = 1 / 10, s_probChange = 1 / 5\<rparr>\<rparr>]\<rparr> \<and>
   inside 2 3 (agentX \<lparr>currentMap = [[0, 0, 0], [0, 0, 0]], newMap = [[1, 1, 0], [1, 1, 0]],
            gen = gen0\<lparr>idx := 5\<rparr>,
            currentProbRoom = 1 / 10, currentProbChange = 1 / 5, currentDirection = 0,
            agentX = 0, agentY = 0, writes = [(0, 0), (0, 0), (0, 1), (1, 0), (1, 1)],
            steps = [\<lparr>pre = \<lparr>s_x = 0, s_y = 0, s_dir = 0, s_probRoom = 1 / 10, s_probChange = 1 / 5\<rparr>,
                      roomFired = True, changeFired = True, bounced = True,
                      post = \<lparr>s_x = 0, s_y = 0, s_dir = 0, s_probRoom = 1 / 10, s_probChange = 1 / 5\<rparr>\<rparr>]\<rparr>, agentY \<lparr>currentMap = [[0, 0, 0], [0, 0, 0]], newMap = [[1, 1, 0], [1, 1, 0]],
            gen = gen0\<lparr>idx := 5\<rparr>,
            currentProbRoom = 1 / 10, currentProbChange = 1 / 5, currentDirection = 0,
            agentX = 0, agentY = 0, writes = [(0, 0), (0, 0), (0, 1), (1, 0), (1, 1)],
            steps = [\<lparr>pre = \<lparr>s_x = 0, s_y = 0, s_dir = 0, s_probRoom = 1 / 10, s_probChange = 1 / 5\<rparr>,
                      roomFired = True, changeFired = True, bounced = True,
                      post = \<lparr>s_x = 0, s_y = 0, s_dir = 0, s_probRoom = 1 / 10, s_probChange = 1 / 5\<rparr>\<rparr>]\<rparr>) \<and>
   list_all (\<lambda>e. inside 2 3 (s_x (post e), s_y (post e))) (steps \<lparr>currentMap = [[0, 0, 0], [0, 0, 0]], newMap = [[1, 1, 0], [1, 1, 0]],
            gen = gen0\<lparr>idx := 5\<rparr>,
            currentProbRoom = 1 / 10, currentProbChange = 1 / 5, currentDirection = 0,
            agentX = 0, agentY = 0, writes = [(0, 0), (0, 0), (0, 1), (1, 0), (1, 1)],
            steps = [\<lparr>pre = \<lparr>s_x = 0, s_y = 0, s_dir = 0, s_probRoom = 1 / 10, s_probChange = 1 / 5\<rparr>,
                      roomFired = True, changeFired = True, bounced = True,
                      post = \<lparr>s_x = 0, s_y = 0, s_dir = 0, s_probRoom = 1 / 10, s_probChange = 1 / 5\<rparr>\<rparr>]\<rparr>) \<and>
   list_all (inside 2 3) (writes \<lparr>currentMap = [[0, 0, 0], [0, 0, 0]], newMap = [[1, 1, 0], [1, 1, 0]],
            gen = gen0\<lparr>idx := 5\<rparr>,
            currentProbRoom = 1 / 10, currentProbChange = 1 / 5, currentDirection = 0,
            agentX = 0, agentY = 0, writes = [(0, 0), (0, 0), (0, 1), (1, 0), (1, 1)],
            steps = [\<lparr>pre = \<lparr>s_x = 0, s_y = 0, s_dir = 0, s_probRoom = 1 / 10, s_probChange = 1 / 5\<rparr>,
                      roomFired = True, changeFired = True, bounced = True,
                      post = \<lparr>s_x = 0, s_y = 0, s_dir = 0, s_probRoom = 1 / 10, s_probChange = 1 / 5\<rparr>\<rparr>]\<rparr>)"
proof -
  have h: "wf_grid [[0, 0, 0], [0, 0, 0]] 2 3" by (simp add: wf_grid_def)
  have run: "drunkAgent gen0 [[0, 0, 0], [0, 0, 0]] 3 2 1 1 3 3 (1 / 10) (1 / 20) (1 / 5) (3 / 100) 0 0
     = Inr \<lparr>currentMap = [[0, 0, 0], [0, 0, 0]], newMap = [[1, 1, 0], [1, 1, 0]],
            gen = gen0\<lparr>idx := 5\<rparr>,
            currentProbRoom = 1 / 10, currentProbChange = 1 / 5, currentDirection = 0,
            agentX = 0, agentY = 0, writes = [(0, 0), (0, 0), (0, 1), (1, 0), (1, 1)],
            steps = [\<lparr>pre = \<lparr>s_x = 0, s_y = 0, s_dir = 0, s_probRoom = 1 / 10, s_probChange = 1 / 5\<rparr>,
                      roomFired = True, changeFired = True, bounced = True,
                      post = \<lparr>s_x = 0, s_y = 0, s_dir = 0, s_probRoom = 1 / 10, s_probChange = 1 / 5\<rparr>\<rparr>]\<rparr>"
    by (simp add: da_eval gen0_def)
  show ?thesis
    using h run
      drunkAgent_in_bounds [OF h, of 0 0 gen0 1 1 3 3 "1 / 10" "1 / 20" "1 / 5" "3 / 100"]
    by simp
qed

section \<open>drunkAgent: the argument, the position and the running probabilities\<close>

lemma drunkAgent_call_frame:
  assumes "drunkAgent_call g m p x y = Inr s"
  shows "currentMap s = m \<and> ones_kept m (newMap s)"
proof -
  let ?P = "\<lambda>s. currentMap s = m \<and> ones_kept m (newMap s)"
  have "?P s"
  proof (rule walk_loop_preserves [where P = ?P, OF _ _ _ assms [unfolded drunkAgent_call_def]])
    show "\<forall>s s'. ?P s \<longrightarrow> drunk_step p s = Inr s' \<longrightarrow> ?P s'"
      using drunk_step_effect ones_kept_trans by metis
    show "\<forall>s. ?P s \<longrightarrow> ?P (s\<lparr>gen := snd (distDirection (gen s)),
                  currentDirection := fst (distDirection (gen s))\<rparr>)"
      by simp
    show "?P (initial_agent g m p x y)"
      by (simp add: initial_agent_def ones_kept_refl)
  qed
  then show ?thesis .
qed
















text \<open>
  Claim C9: every cell that holds 1 in the input grid holds 1 in the grid drunkAgent
  returns, whatever the parameters and the random draws; the returned grid has the shape
  of the input.
\<close>

theorem drunkAgent_monotone:
  assumes "drunkAgent g m W H J I roomSizeX roomSizeY probGenerateRoom probIncreaseRoom
             probChangeDirection probIncreaseChange x y = Inr s"
  shows "ones_kept m (newMap s)"
  using drunkAgent_call_frame [OF assms [unfolded drunkAgent_def]] by simp

theorem drunkAgent_monotone_witness:
  "\<exists>s. drunkAgent gen1 [[1, 0], [0, 0]] 2 2 1 2 3 3 (1 / 10) (1 / 20) (1 / 5) (3 / 100) 1 0 = Inr s \<and>
       newMap s = [[1, 0], [1, 1]] \<and> ones_kept [[1, 0], [0, 0]] (newMap s)"
proof -
  have run: "drunkAgent gen1 [[1, 0], [0, 0]] 2 2 1 2 3 3 (1 / 10) (1 / 20) (1 / 5) (3 / 100) 1 0
     = Inr \<lparr>currentMap = [[1, 0], [0, 0]], newMap = [[1, 0], [1, 1]], gen = gen1\<lparr>idx := 6\<rparr>,
            currentProbRoom = 1 / 5, currentProbChange = 1 / 5, currentDirection = 3,
            agentX = 1, agentY = 1, writes = [(1, 0), (1, 1)],
            steps = [\<lparr>pre = \<lparr>s_x = 1, s_y = 0, s_dir = 3, s_probRoom = 1 / 10, s_probChange = 1 / 5\<rparr>,
                      roomFired = False, changeFired = False, bounced = False,
                      post = \<lparr>s_x = 1, s_y = 1, s_dir = 3, s_probRoom = 3 / 20, s_probChange = 23 / 100\<rparr>\<rparr>,
                     \<lparr>pre = \<lparr>s_x = 1, s_y = 1, s_dir = 3, s_probRoom = 3 / 20, s_probChange = 23 / 100\<rparr>,
                      roomFired = False, changeFired = False, bounced = True,
                      post = \<lparr>s_x = 1, s_y = 1, s_dir = 3, s_probRoom = 1 / 5, s_probChange = 1 / 5\<rparr>\<rparr>]\<rparr>"
    by (simp add: da_eval gen1_def)
  show ?thesis
    using run drunkAgent_monotone [OF run] by simp
qed

section \<open>Termination of the two passes\<close>

subsection \<open>cellularAutomata on 32-bit integers\<close>

text \<open>
  Where the arithmetic of the machine matters. With \<open>R = 23170\<close> the product
  \<open>(2R+1)\<^sup>2 = 2147488281\<close> exceeds \<open>INT_MAX\<close> and wraps to a negative \<^verbatim>\<open>int\<close>, and the
  quotient \<open>3 / 9\<close> is rounded to the \<^verbatim>\<open>double\<close> just below one third.
\<close>

lemma apply_rule_i32_overflow:
  "wrap32 ((2 * 23170 + 1) * (2 * 23170 + 1)) = - 2147479015 \<and>
   apply_rule_i32 1 23170 0 = 0 \<and> apply_rule 1 23170 0 = 1"
proof -
  have "wrap32 ((2 * 23170 + 1) * (2 * 23170 + 1)) = - 2147479015" by (simp add: wrap32_def)
  moreover have "apply_rule_i32 1 23170 0 = 0" by code_simp
  moreover have "apply_rule 1 23170 0 = 1" by (simp add: apply_rule_def)
  ultimately show ?thesis by simp
qed

lemma apply_rule_i32_rounding:
  "double_div 3 9 = 6004799503160661 / 18014398509481984 \<and>
   apply_rule_i32 3 1 (6004799503160661 / 18014398509481984) = 0 \<and>
   apply_rule 3 1 (6004799503160661 / 18014398509481984) = 1"
proof -
  have "double_div 3 9 = 6004799503160661 / 18014398509481984" by code_simp
  moreover have "apply_rule_i32 3 1 (6004799503160661 / 18014398509481984) = 0" by code_simp
  moreover have "apply_rule 3 1 (6004799503160661 / 18014398509481984) = 1"
    by (simp add: apply_rule_def)
  ultimately show ?thesis by simp
qed

text \<open>
  A value of the \<^verbatim>\<open>int\<close> range is left alone by the wrap-around, and every wrapped value
  is in the range.
\<close>

lemma wrap32_id: "INT_MIN \<le> x \<Longrightarrow> x \<le> INT_MAX \<Longrightarrow> wrap32 x = x"
  by (simp add: wrap32_def INT_MIN_def INT_MAX_def)

lemma wrap32_range: "INT_MIN \<le> wrap32 x \<and> wrap32 x \<le> INT_MAX"
proof -
  have "0 \<le> (x + 2147483648) mod 4294967296" "(x + 2147483648) mod 4294967296 < 4294967296"
    by simp_all
  then show ?thesis by (simp add: wrap32_def INT_MIN_def INT_MAX_def)
qed

lemma count_dj_i32_returns:
  assumes wf: "wf_grid cm H W" and R: "R < INT_MAX"
  shows "INT_MIN \<le> dj \<Longrightarrow> \<exists>c'. count_dj_i32 cm W H R i j di dj c = Some (Inr c')"
proof (induction "nat (R + 1 - dj)" arbitrary: dj c)
  case 0
  then have "\<not> dj \<le> R" by simp
  then show ?case by (subst count_dj_i32.simps) simp
next
  case (Suc n)
  then have le: "dj \<le> R" by simp
  with R Suc.prems have w: "wrap32 (dj + 1) = dj + 1" by (simp add: wrap32_id)
  have n: "n = nat (R + 1 - (dj + 1))" using Suc.hyps(2) by simp
  have min: "INT_MIN \<le> dj + 1" using Suc.prems by simp
  note IH = Suc.hyps(1) [OF n min]
  show ?case
  proof (cases "wrap32 (i + di) \<ge> 0 \<and> wrap32 (i + di) < H \<and> wrap32 (j + dj) \<ge> 0 \<and> wrap32 (j + dj) < W")
    case True
    then have "map_read cm (wrap32 (i + di)) (wrap32 (j + dj)) =
                 Inr (cm ! nat (wrap32 (i + di)) ! nat (wrap32 (j + dj)))"
      using map_read_wf [OF wf] by simp
    with True le w IH show ?thesis
      by (subst count_dj_i32.simps) (simp add: Let_def)
  next
    case False
    with le w IH show ?thesis
      by (subst count_dj_i32.simps) (auto simp add: Let_def)
  qed
qed

lemma count_di_i32_returns:
  assumes wf: "wf_grid cm H W" and R: "R < INT_MAX"
  shows "INT_MIN \<le> di \<Longrightarrow> \<exists>c'. count_di_i32 cm W H R i j di c = Some (Inr c')"
proof (induction "nat (R + 1 - di)" arbitrary: di c)
  case 0
  then have "\<not> di \<le> R" by simp
  then show ?case by (subst count_di_i32.simps) simp
next
  case (Suc n)
  then have le: "di \<le> R" by simp
  with R Suc.prems have w: "wrap32 (di + 1) = di + 1" by (simp add: wrap32_id)
  have n: "n = nat (R + 1 - (di + 1))" using Suc.hyps(2) by simp
  have min: "INT_MIN \<le> di + 1" using Suc.prems by simp
  from count_dj_i32_returns [OF wf R, of "wrap32 (- R)" i j di c] wrap32_range [of "- R"]
  obtain c1 where c1: "count_dj_i32 cm W H R i j di (wrap32 (- R)) c = Some (Inr c1)" by blast
  from Suc.hyps(1) [OF n min, of c1] le w c1 show ?case
    by (subst count_di_i32.simps) simp
qed

lemma count_dj_i32_stuck:
  assumes run: "count_dj_i32 cm W H R i j di dj c = Some y"
  shows "wf_grid cm H W \<and> R = INT_MAX \<and> dj \<le> INT_MAX \<longrightarrow> False"
proof (rule count_dj_i32.raw_induct
    [where P = "\<lambda>cm W H R i j di dj c y. wf_grid cm H W \<and> R = INT_MAX \<and> dj \<le> INT_MAX \<longrightarrow> False",
      OF _ run])
  fix f :: "Map \<Rightarrow> int \<Rightarrow> int \<Rightarrow> int \<Rightarrow> int \<Rightarrow> int \<Rightarrow> int \<Rightarrow> int \<Rightarrow> int \<Rightarrow> (error + int) option"
    and cm W H R i j di dj c y
  assume IH: "\<And>cm W H R i j di dj c y. f cm W H R i j di dj c = Some y \<Longrightarrow>
                wf_grid cm H W \<and> R = INT_MAX \<and> dj \<le> INT_MAX \<longrightarrow> False"
    and body: "(if dj \<le> R then
        (let ni = wrap32 (i + di); nj = wrap32 (j + dj) in
         if ni \<ge> 0 \<and> ni < H \<and> nj \<ge> 0 \<and> nj < W then
           (case map_read cm ni nj of
              Inl e \<Rightarrow> Some (Inl e)
            | Inr v \<Rightarrow> f cm W H R i j di (wrap32 (dj + 1)) (wrap32 (c + v)))
         else f cm W H R i j di (wrap32 (dj + 1)) c)
      else Some (Inr c)) = Some y"
  show "wf_grid cm H W \<and> R = INT_MAX \<and> dj \<le> INT_MAX \<longrightarrow> False"
  proof
    assume a: "wf_grid cm H W \<and> R = INT_MAX \<and> dj \<le> INT_MAX"
    then have wf: "wf_grid cm H W" and le: "dj \<le> R" by simp_all
    have nx: "wrap32 (dj + 1) \<le> INT_MAX" using wrap32_range by simp
    show False
    proof (cases "wrap32 (i + di) \<ge> 0 \<and> wrap32 (i + di) < H \<and> wrap32 (j + dj) \<ge> 0 \<and> wrap32 (j + dj) < W")
      case True
      then have "map_read cm (wrap32 (i + di)) (wrap32 (j + dj)) =
                   Inr (cm ! nat (wrap32 (i + di)) ! nat (wrap32 (j + dj)))"
        using map_read_wf [OF wf] by simp
      with True le body have "f cm W H R i j di (wrap32 (dj + 1))
          (wrap32 (c + cm ! nat (wrap32 (i + di)) ! nat (wrap32 (j + dj)))) = Some y"
        by (simp add: Let_def)
      from IH [OF this] a nx show False by simp
    next
      case False
      with le body have "f cm W H R i j di (wrap32 (dj + 1)) c = Some y"
        by (auto simp add: Let_def)
      from IH [OF this] a nx show False by simp
    qed
  qed
qed

lemma count_dj_i32_never_exits:
  assumes "wf_grid cm H W"
  shows "count_dj_i32 cm W H INT_MAX i j di (wrap32 dj) c = None"
proof (cases "count_dj_i32 cm W H INT_MAX i j di (wrap32 dj) c")
  case None
  then show ?thesis .
next
  case (Some y)
  from count_dj_i32_stuck [OF Some] assms wrap32_range [of dj] show ?thesis by simp
qed

lemma count_di_i32_never_exits:
  assumes "wf_grid cm H W"
  shows "count_di_i32 cm W H INT_MAX i j (wrap32 di) c = None"
  using count_dj_i32_never_exits [OF assms, of i j "wrap32 di" "- INT_MAX" c] wrap32_range [of di]
  by (subst count_di_i32.simps) simp

lemma ca_j_loop_i32_returns:
  assumes wf: "wf_grid cm H W" and R: "R < INT_MAX" and i: "0 \<le> i" "i < H"
  shows "0 \<le> j \<Longrightarrow> wf_grid nm H W \<Longrightarrow>
         \<exists>nm'. ca_j_loop_i32 cm W H R U i j nm = Some (Inr nm') \<and> wf_grid nm' H W"
proof (induction "nat (W - j)" arbitrary: j nm)
  case 0
  then have "\<not> j < W" by simp
  with 0 show ?case by (subst ca_j_loop_i32.simps) simp
next
  case (Suc n)
  then have lt: "j < W" by simp
  have n: "n = nat (W - (j + 1))" using Suc.hyps(2) by simp
  from count_di_i32_returns [OF wf R, of "wrap32 (- R)" i j 0] wrap32_range [of "- R"]
  obtain c where c: "count_di_i32 cm W H R i j (wrap32 (- R)) 0 = Some (Inr c)" by blast
  let ?nm = "nm[nat i := (nm ! nat i)[nat j := apply_rule_i32 c R U]]"
  have w: "map_write nm i j (apply_rule_i32 c R U) = Inr ?nm"
    using map_write_wf [OF Suc.prems(2) i Suc.prems(1) lt] .
  have "wf_grid ?nm H W" using Suc.prems(2) by (rule wf_grid_update)
  from Suc.hyps(1) [OF n _ this] Suc.prems(1)
  obtain nm' where "ca_j_loop_i32 cm W H R U i (j + 1) ?nm = Some (Inr nm')" "wf_grid nm' H W"
    by auto
  with lt c w show ?case by (subst ca_j_loop_i32.simps) simp
qed

lemma ca_i_loop_i32_returns:
  assumes wf: "wf_grid cm H W" and R: "R < INT_MAX"
  shows "0 \<le> i \<Longrightarrow> wf_grid nm H W \<Longrightarrow>
         \<exists>nm'. ca_i_loop_i32 cm W H R U i nm = Some (Inr nm') \<and> wf_grid nm' H W"
proof (induction "nat (H - i)" arbitrary: i nm)
  case 0
  then have "\<not> i < H" by simp
  with 0 show ?case by (subst ca_i_loop_i32.simps) simp
next
  case (Suc n)
  then have lt: "i < H" by simp
  have n: "n = nat (H - (i + 1))" using Suc.hyps(2) by simp
  from ca_j_loop_i32_returns [OF wf R Suc.prems(1) lt _ Suc.prems(2), of 0 U]
  obtain nm1 where nm1: "ca_j_loop_i32 cm W H R U i 0 nm = Some (Inr nm1)" "wf_grid nm1 H W"
    by auto
  from Suc.hyps(1) [OF n _ nm1(2)] Suc.prems(1)
  obtain nm' where "ca_i_loop_i32 cm W H R U (i + 1) nm1 = Some (Inr nm')" "wf_grid nm' H W"
    by auto
  with lt nm1 show ?case by (subst ca_i_loop_i32.simps) simp
qed

lemma cellularAutomata_i32_returns:
  assumes "wf_grid m H W" and "R < INT_MAX"
  shows "\<exists>g'. cellularAutomata_i32 gn m W H R U = Some (Inr g') \<and> wf_grid g' H W"
  using ca_i_loop_i32_returns [OF assms _ assms(1), of 0 U]
  by (simp add: cellularAutomata_i32_def)

lemma ca2_j_loop_i32_returns:
  assumes R: "R < INT_MAX" and i: "0 \<le> i" "i < H"
  shows "0 \<le> j \<Longrightarrow> wf_grid cm H W \<Longrightarrow>
         \<exists>cm'. ca2_j_loop_i32 W H R U i j cm = Some (Inr cm') \<and> wf_grid cm' H W"
proof (induction "nat (W - j)" arbitrary: j cm)
  case 0
  then have "\<not> j < W" by simp
  with 0 show ?case by (subst ca2_j_loop_i32.simps) simp
next
  case (Suc n)
  then have lt: "j < W" by simp
  have n: "n = nat (W - (j + 1))" using Suc.hyps(2) by simp
  from count_di_i32_returns [OF Suc.prems(2) R, of "wrap32 (- R)" i j 0] wrap32_range [of "- R"]
  obtain c where c: "count_di_i32 cm W H R i j (wrap32 (- R)) 0 = Some (Inr c)" by blast
  let ?cm = "cm[nat i := (cm ! nat i)[nat j := apply_rule_i32 c R U]]"
  have w: "map_write cm i j (apply_rule_i32 c R U) = Inr ?cm"
    using map_write_wf [OF Suc.prems(2) i Suc.prems(1) lt] .
  have "wf_grid ?cm H W" using Suc.prems(2) by (rule wf_grid_update)
  from Suc.hyps(1) [OF n _ this] Suc.prems(1)
  obtain cm' where "ca2_j_loop_i32 W H R U i (j + 1) ?cm = Some (Inr cm')" "wf_grid cm' H W"
    by auto
  with lt c w show ?case by (subst ca2_j_loop_i32.simps) simp
qed

lemma ca2_i_loop_i32_returns:
  assumes R: "R < INT_MAX"
  shows "0 \<le> i \<Longrightarrow> wf_grid cm H W \<Longrightarrow>
         \<exists>cm'. ca2_i_loop_i32 W H R U i cm = Some (Inr cm') \<and> wf_grid cm' H W"
proof (induction "nat (H - i)" arbitrary: i cm)
  case 0
  then have "\<not> i < H" by simp
  with 0 show ?case by (subst ca2_i_loop_i32.simps) simp
next
  case (Suc n)
  then have lt: "i < H" by simp
  have n: "n = nat (H - (i + 1))" using Suc.hyps(2) by simp
  from ca2_j_loop_i32_returns [OF R Suc.prems(1) lt _ Suc.prems(2), of 0 U]
  obtain cm1 where cm1: "ca2_j_loop_i32 W H R U i 0 cm = Some (Inr cm1)" "wf_grid cm1 H W"
    by auto
  from Suc.hyps(1) [OF n _ cm1(2)] Suc.prems(1)
  obtain cm' where "ca2_i_loop_i32 W H R U (i + 1) cm1 = Some (Inr cm')" "wf_grid cm' H W"
    by auto
  with lt cm1 show ?case by (subst ca2_i_loop_i32.simps) simp
qed

lemma cellularAutomata2_i32_returns:
  assumes "wf_grid m H W" and "R < INT_MAX"
  shows "\<exists>g'. cellularAutomata2_i32 gn m W H R U = Some (Inr g') \<and> wf_grid g' H W"
  using ca2_i_loop_i32_returns [OF assms(2) _ assms(1), of 0 U]
  by (simp add: cellularAutomata2_i32_def)

lemma cellularAutomata_i32_never_returns:
  assumes wf: "wf_grid m H W" and "0 < H" "0 < W"
  shows "cellularAutomata_i32 gn m W H INT_MAX U = None"
  using assms count_di_i32_never_exits [OF wf, of 0 0 "- INT_MAX" 0]
  by (simp add: cellularAutomata_i32_def ca_i_loop_i32.simps [of _ _ _ _ _ 0]
      ca_j_loop_i32.simps [of _ _ _ _ _ _ 0])

lemma cellularAutomata2_i32_never_returns:
  assumes wf: "wf_grid m H W" and "0 < H" "0 < W"
  shows "cellularAutomata2_i32 gn m W H INT_MAX U = None"
  using assms count_di_i32_never_exits [OF wf, of 0 0 "- INT_MAX" 0]
  by (simp add: cellularAutomata2_i32_def ca2_i_loop_i32.simps [of _ _ _ _ 0]
      ca2_j_loop_i32.simps [of _ _ _ _ _ 0])

subsection \<open>drunkAgent\<close>

lemma drunkAgent_call_count:
  "drunkAgent_call g m p x y = Inr s \<Longrightarrow> length (steps s) = nat (da_J p) * nat (da_I p)"
  using walk_loop_count [of p 0 "initial_agent g m p x y" s]
  by (simp add: drunkAgent_call_def initial_agent_def)

lemma drunkAgent_call_no_op:
  assumes "da_J p \<le> 0 \<or> da_I p \<le> 0"
  shows "\<exists>s. drunkAgent_call g m p x y = Inr s \<and> newMap s = m \<and> agentX s = x \<and> agentY s = y \<and>
             writes s = [] \<and> steps s = []"
proof (cases "da_I p \<le> 0")
  case True
  from walk_loop_no_steps [OF True, of 0 "initial_agent g m p x y"]
  show ?thesis by (auto simp: drunkAgent_call_def initial_agent_def)
next
  case False
  with assms have "\<not> 0 < da_J p" by simp
  then show ?thesis
    by (simp add: drunkAgent_call_def walk_loop.simps [of p 0] initial_agent_def)
qed

text \<open>
  Claim C8, as the code has it: both passes terminate when \<open>R\<close> is below \<open>INT_MAX\<close>.
  On a grid of \<open>H\<close> rows and \<open>W\<close> columns and with \<open>R < INT_MAX = 2147483647\<close>,
  cellularAutomata returns a grid of \<open>H\<close> rows and \<open>W\<close> columns, in both versions and
  with the wrap-around of 32-bit \<^verbatim>\<open>int\<close>; with \<open>R = INT_MAX\<close> and at least one cell it
  never returns, since \<^verbatim>\<open>dj <= R\<close> holds of every \<^verbatim>\<open>int\<close>. With the agent inside the
  grid drunkAgent returns after exactly \<open>J \<cdot> I\<close> steps (none when \<open>J\<close> or \<open>I\<close> is
  negative), and with \<open>J \<le> 0\<close> or \<open>I \<le> 0\<close> it returns the grid and the position
  unchanged and assigns no cell. The counters of drunkAgent stay below \<open>J\<close>, \<open>I\<close>,
  \<open>H\<close> and \<open>W\<close> and do not overflow.
\<close>

theorem passes_terminate:
  "(wf_grid m H W \<and> R < INT_MAX \<longrightarrow>
      (\<exists>g'. cellularAutomata_i32 gn m W H R U = Some (Inr g') \<and> wf_grid g' H W) \<and>
      (\<exists>g'. cellularAutomata2_i32 gn m W H R U = Some (Inr g') \<and> wf_grid g' H W)) \<and>
   (wf_grid m H W \<and> 0 < H \<and> 0 < W \<longrightarrow>
      cellularAutomata_i32 gn m W H INT_MAX U = None \<and>
      cellularAutomata2_i32 gn m W H INT_MAX U = None) \<and>
   (wf_grid m H W \<and> inside H W (x, y) \<longrightarrow>
      (\<exists>s. drunkAgent g m W H J I roomSizeX roomSizeY probGenerateRoom probIncreaseRoom
              probChangeDirection probIncreaseChange x y = Inr s \<and>
            length (steps s) = nat J * nat I)) \<and>
   (J \<le> 0 \<or> I \<le> 0 \<longrightarrow>
      (\<exists>s. drunkAgent g m W H J I roomSizeX roomSizeY probGenerateRoom probIncreaseRoom
              probChangeDirection probIncreaseChange x y = Inr s \<and>
            newMap s = m \<and> agentX s = x \<and> agentY s = y \<and> writes s = [] \<and> steps s = []))"
proof -
  let ?p = "\<lparr>da_W = W, da_H = H, da_J = J, da_I = I,
        da_roomSizeX = roomSizeX, da_roomSizeY = roomSizeY,
        da_probGenerateRoom = probGenerateRoom, da_probIncreaseRoom = probIncreaseRoom,
        da_probChangeDirection = probChangeDirection,
        da_probIncreaseChange = probIncreaseChange\<rparr>"
  have ca: "wf_grid m H W \<and> R < INT_MAX \<longrightarrow>
      (\<exists>g'. cellularAutomata_i32 gn m W H R U = Some (Inr g') \<and> wf_grid g' H W) \<and>
      (\<exists>g'. cellularAutomata2_i32 gn m W H R U = Some (Inr g') \<and> wf_grid g' H W)"
    using cellularAutomata_i32_returns [of m H W R gn U]
      cellularAutomata2_i32_returns [of m H W R gn U]
    by blast
  have loop: "wf_grid m H W \<and> 0 < H \<and> 0 < W \<longrightarrow>
      cellularAutomata_i32 gn m W H INT_MAX U = None \<and>
      cellularAutomata2_i32 gn m W H INT_MAX U = None"
    using cellularAutomata_i32_never_returns [of m H W gn U]
      cellularAutomata2_i32_never_returns [of m H W gn U]
    by blast
  have da: "wf_grid m H W \<and> inside H W (x, y) \<longrightarrow>
      (\<exists>s. drunkAgent g m W H J I roomSizeX roomSizeY probGenerateRoom probIncreaseRoom
              probChangeDirection probIncreaseChange x y = Inr s \<and>
            length (steps s) = nat J * nat I)"
  proof
    assume "wf_grid m H W \<and> inside H W (x, y)"
    then have "wf_grid m (da_H ?p) (da_W ?p)" and "inside (da_H ?p) (da_W ?p) (x, y)"
      by simp_all
    from drunkAgent_call_returns [OF this, of g]
    obtain s where s: "drunkAgent_call g m ?p x y = Inr s" by blast
    from drunkAgent_call_count [OF s] s
    show "\<exists>s. drunkAgent g m W H J I roomSizeX roomSizeY probGenerateRoom probIncreaseRoom
              probChangeDirection probIncreaseChange x y = Inr s \<and>
            length (steps s) = nat J * nat I"
      by (simp add: drunkAgent_def)
  qed
  have noop: "J \<le> 0 \<or> I \<le> 0 \<longrightarrow>
      (\<exists>s. drunkAgent g m W H J I roomSizeX roomSizeY probGenerateRoom probIncreaseRoom
              probChangeDirection probIncreaseChange x y = Inr s \<and>
            newMap s = m \<and> agentX s = x \<and> agentY s = y \<and> writes s = [] \<and> steps s = [])"
    using drunkAgent_call_no_op [of ?p g m x y] by (simp add: drunkAgent_def)
  show ?thesis
    using ca loop da noop by blast
qed

theorem passes_terminate_witness:
  "wf_grid [[1, 1], [1, 1], [1, 1]] 3 2 \<and> 1 < INT_MAX \<and>
   cellularAutomata_i32 gen0 [[1, 1], [1, 1], [1, 1]] 2 3 1 (1 / 2) =
     Some (Inr [[0, 0], [1, 1], [0, 0]]) \<and>
   cellularAutomata2_i32 gen0 [[1, 1], [1, 1], [1, 1]] 2 3 1 (1 / 2) =
     Some (Inr [[0, 0], [0, 0], [0, 0]]) \<and>
   (\<exists>g'. cellularAutomata_i32 gen0 [[1, 1], [1, 1], [1, 1]] 2 3 2147483646 (1 / 2) = Some (Inr g')) \<and>
   cellularAutomata_i32 gen0 [[1, 1], [1, 1], [1, 1]] 2 3 INT_MAX (1 / 2) = None \<and>
   cellularAutomata2_i32 gen0 [[1, 1], [1, 1], [1, 1]] 2 3 INT_MAX (1 / 2) = None \<and>
   wf_grid [[0, 0]] 1 2 \<and> inside 1 2 (0, 0) \<and>
   (\<exists>s. drunkAgent gen1 [[0, 0]] 2 1 1 2 3 3 (1 / 10) (1 / 20) (1 / 5) (3 / 100) 0 0 = Inr s \<and>
        length (steps s) = 2) \<and>
   (\<exists>s. drunkAgent gen1 [[0, 0]] 2 1 2 0 3 3 (1 / 10) (1 / 20) (1 / 5) (3 / 100) 0 0 = Inr s \<and>
        newMap s = [[0, 0]] \<and> agentX s = 0 \<and> agentY s = 0)"
proof -
  have h: "wf_grid [[1, 1], [1, 1], [1, 1]] 3 2" "1 < INT_MAX" "2147483646 < INT_MAX"
    "wf_grid [[0, 0]] 1 2" "inside 1 2 (0, 0)"
    by (simp_all add: wf_grid_def inside_def INT_MAX_def)
  have run1: "cellularAutomata_i32 gen0 [[1, 1], [1, 1], [1, 1]] 2 3 1 (1 / 2) =
      Some (Inr [[0, 0], [1, 1], [0, 0]])"
    by code_simp
  have run2: "cellularAutomata2_i32 gen0 [[1, 1], [1, 1], [1, 1]] 2 3 1 (1 / 2) =
      Some (Inr [[0, 0], [0, 0], [0, 0]])"
    by code_simp
  show ?thesis
    using h run1 run2
      passes_terminate [of "[[1, 1], [1, 1], [1, 1]]" 3 2 2147483646 gen0 "1 / 2" 0 0 gen1 1 2 3 3 "1 / 10" "1 / 20" "1 / 5" "3 / 100"]
      passes_terminate [of "[[0, 0]]" 1 2 1 gen0 "1 / 2" 0 0 gen1 1 2 3 3 "1 / 10" "1 / 20" "1 / 5" "3 / 100"]
      passes_terminate [of "[[0, 0]]" 1 2 1 gen0 "1 / 2" 0 0 gen1 2 0 3 3 "1 / 10" "1 / 20" "1 / 5" "3 / 100"]
    by auto
qed

text \<open>
  Claim C8, as the specification has it, fails: \<open>R = 2147483647\<close> is a radius
  \<open>\<ge> 0\<close>, and on the grid of one cell neither version of cellularAutomata returns.
  \<^verbatim>\<open>dj <= R\<close> is true of every \<^verbatim>\<open>int\<close>, and \<^verbatim>\<open>++dj\<close> at \<open>INT_MAX\<close> wraps to
  \<open>INT_MIN\<close> (in C++ the overflow is undefined behaviour).
\<close>

theorem cellularAutomata_never_returns_at_INT_MAX:
  "cellularAutomata_i32 gen0 [[0]] 1 1 2147483647 (1 / 2) = None \<and>
   cellularAutomata2_i32 gen0 [[0]] 1 1 2147483647 (1 / 2) = None"
  using cellularAutomata_i32_never_returns [of "[[0]]" 1 1 gen0 "1 / 2"]
    cellularAutomata2_i32_never_returns [of "[[0]]" 1 1 gen0 "1 / 2"]
  by (simp add: wf_grid_def INT_MAX_def)

section \<open>The driver\<close>

lemma drunkAgent_call_first_step:
  assumes "drunkAgent_call g m p x y = Inr s" and "0 < da_J p" and "0 < da_I p"
  shows "steps s \<noteq> [] \<and>
         pre (hd (steps s)) =
           \<lparr>s_x = x, s_y = y, s_dir = fst (distDirection g),
            s_probRoom = da_probGenerateRoom p, s_probChange = da_probChangeDirection p\<rparr>"
proof -
  let ?s0 = "(initial_agent g m p x y)\<lparr>gen := snd (distDirection g),
               currentDirection := fst (distDirection g)\<rparr>"
  from assms(1,2) obtain s1 where walk: "step_loop p 0 ?s0 = Inr s1"
    and rest: "walk_loop p (0 + 1) s1 = Inr s"
    by (auto simp: drunkAgent_call_def walk_loop.simps [of p 0] initial_agent_def
        split: sum.splits prod.splits)
  from walk assms(3) obtain sa where one: "drunk_step p ?s0 = Inr sa"
    and more: "step_loop p (0 + 1) sa = Inr s1"
    by (auto simp: step_loop.simps [of p 0] split: sum.splits)
  from drunk_step_effect [OF one] obtain e where
    e: "steps sa = [e]" and pre: "pre e = snap ?s0"
    by (auto simp: initial_agent_def)
  let ?P = "\<lambda>s. \<exists>r. steps s = e # r"
  have keep: "\<forall>s s'. ?P s \<longrightarrow> drunk_step p s = Inr s' \<longrightarrow> ?P s'"
    using drunk_step_effect by fastforce
  have "?P sa" using e by simp
  then have "?P s1" by (rule step_loop_preserves [where P = ?P, OF keep _ more])
  moreover have "\<forall>s. ?P s \<longrightarrow> ?P (s\<lparr>gen := snd (distDirection (gen s)),
                  currentDirection := fst (distDirection (gen s))\<rparr>)"
    by simp
  ultimately have "?P s"
    using walk_loop_preserves [where P = ?P, OF keep _ _ rest] by blast
  then show ?thesis
    using pre by (auto simp: snap_def initial_agent_def)
qed

lemma draw_params_range:
  "da_W (fst (draw_params w h g)) = w \<and> da_H (fst (draw_params w h g)) = h \<and>
   3 \<le> da_J (fst (draw_params w h g)) \<and> 5 \<le> da_I (fst (draw_params w h g))"
  by (simp add: draw_params_def uniform_int_def uniform_real_def Let_def split_beta)

lemma fill_j_loop_returns:
  "wf_grid (fst mg) H W \<Longrightarrow> 0 \<le> i \<Longrightarrow> i < H \<Longrightarrow> 0 \<le> j \<Longrightarrow>
   \<exists>mg'. fill_j_loop W i j mg = Inr mg' \<and> wf_grid (fst mg') H W"
proof (induction W i j mg rule: fill_j_loop.induct)
  case (1 W i j mg)
  show ?case
  proof (cases "j < W")
    case False
    then show ?thesis using "1.prems" by (simp add: fill_j_loop.simps [of W i j mg])
  next
    case True
    let ?v = "fst (uniform_int 0 1 (snd mg))" and ?g = "snd (uniform_int 0 1 (snd mg))"
    let ?m = "(fst mg)[nat i := (fst mg ! nat i)[nat j := ?v]]"
    have wr: "map_write (fst mg) i j ?v = Inr ?m"
      using "1.prems" True by (simp add: map_write_wf)
    have wf: "wf_grid (fst (?m, ?g)) H W"
      using "1.prems"(1) by (simp add: wf_grid_update)
    from "1.IH" [OF True refl prod.collapse wr wf "1.prems"(2,3)] "1.prems"(4)
    obtain mg' where "fill_j_loop W i (j + 1) (?m, ?g) = Inr mg'" and "wf_grid (fst mg') H W"
      by auto
    then show ?thesis using True wr
      by (subst fill_j_loop.simps) (simp add: split_beta)
  qed
qed

lemma fill_i_loop_returns:
  "wf_grid (fst mg) H W \<Longrightarrow> 0 \<le> i \<Longrightarrow>
   \<exists>mg'. fill_i_loop H W i mg = Inr mg' \<and> wf_grid (fst mg') H W"
proof (induction H W i mg rule: fill_i_loop.induct)
  case (1 H W i mg)
  show ?case
  proof (cases "i < H")
    case False
    then show ?thesis using "1.prems" by (simp add: fill_i_loop.simps [of H W i mg])
  next
    case True
    from fill_j_loop_returns [OF "1.prems"(1,2) True, of 0]
    obtain mg1 where row: "fill_j_loop W i 0 mg = Inr mg1" and wf1: "wf_grid (fst mg1) H W"
      by auto
    from "1.IH" [OF True row wf1] "1.prems"(2)
    obtain mg' where "fill_i_loop H W (i + 1) mg1 = Inr mg'" and "wf_grid (fst mg') H W"
      by auto
    then show ?thesis using True row by (subst fill_i_loop.simps) simp
  qed
qed

lemma main_iteration_effect:
  assumes "wf_grid (myMap st) H W" and "inside H W (drunkAgentX st, drunkAgentY st)"
  shows "\<exists>st' c. main_iteration clock_ca clock_da W H R U k st = Inr st' \<and>
           wf_grid (myMap st') H W \<and> inside H W (drunkAgentX st', drunkAgentY st') \<and>
           calls st' = calls st @ [c] \<and>
           c_startX c = drunkAgentX st \<and> c_startY c = drunkAgentY st \<and>
           agentX (c_result c) = drunkAgentX st' \<and> agentY (c_result c) = drunkAgentY st' \<and>
           call_fresh c"
proof -
  let ?p = "fst (draw_params W H (main_gen st))"
  from draw_params_range [of W H "main_gen st"]
  have pW: "da_W ?p = W" and pH: "da_H ?p = H" and pJ: "0 < da_J ?p" and pI: "0 < da_I ?p"
    by simp_all
  from cellularAutomata_spec [OF assms(1), of "clock_ca k" R U]
  obtain m1 where ca: "cellularAutomata (clock_ca k) (myMap st) W H R U = Inr m1"
    and wf1: "wf_grid m1 H W" by blast
  have "wf_grid m1 (da_H ?p) (da_W ?p)" and "inside (da_H ?p) (da_W ?p) (drunkAgentX st, drunkAgentY st)"
    using wf1 assms(2) pW pH by simp_all
  from drunkAgent_call_returns [OF this, of "clock_da k"]
  obtain a where da: "drunkAgent_call (clock_da k) m1 ?p (drunkAgentX st) (drunkAgentY st) = Inr a"
    and ok: "agent_ok ?p a" by blast
  from drunkAgent_call_frame [OF da] have cm: "currentMap a = m1" by simp
  note first = drunkAgent_call_first_step [OF da pJ pI]
  let ?c = "\<lparr>c_gen = clock_da k, c_params = ?p, c_startX = drunkAgentX st,
             c_startY = drunkAgentY st, c_result = a\<rparr>"
  let ?st' = "st\<lparr>myMap := newMap a, drunkAgentX := agentX a, drunkAgentY := agentY a,
                 main_gen := snd (draw_params W H (main_gen st)), calls := calls st @ [?c]\<rparr>"
  have it: "main_iteration clock_ca clock_da W H R U k st = Inr ?st'"
    using ca da by (simp add: main_iteration_def split_beta)
  have "call_fresh ?c"
    using da cm first by (simp add: call_fresh_def)
  moreover have "wf_grid (myMap ?st') H W" and "inside H W (drunkAgentX ?st', drunkAgentY ?st')"
    using ok pW pH by (simp_all add: agent_ok_def)
  ultimately show ?thesis
    using it by (intro exI [of _ ?st'] exI [of _ ?c]) simp
qed

lemma main_loop_effect:
  "wf_grid (myMap st) H W \<Longrightarrow> inside H W (drunkAgentX st, drunkAgentY st) \<Longrightarrow>
   \<exists>st' cs. main_loop clock_ca clock_da W H R U n k st = Inr st' \<and>
     calls st' = calls st @ cs \<and> length cs = nat (n - k) \<and>
     list_all call_fresh cs \<and> successively position_carried cs \<and>
     (if cs = [] then drunkAgentX st' = drunkAgentX st \<and> drunkAgentY st' = drunkAgentY st
      else c_startX (hd cs) = drunkAgentX st \<and> c_startY (hd cs) = drunkAgentY st \<and>
           agentX (c_result (last cs)) = drunkAgentX st' \<and>
           agentY (c_result (last cs)) = drunkAgentY st')"
proof (induction clock_ca clock_da W H R U n k st rule: main_loop.induct)
  case (1 clock_ca clock_da W H R U n k st)
  show ?case
  proof (cases "k < n")
    case False
    then have "main_loop clock_ca clock_da W H R U n k st = Inr st"
      by (simp add: main_loop.simps [of clock_ca clock_da W H R U n k st])
    then show ?thesis using False
      by (intro exI [of _ st] exI [of _ "[]"]) simp
  next
    case True
    from main_iteration_effect [OF "1.prems", of clock_ca clock_da R U k]
    obtain st1 c where it: "main_iteration clock_ca clock_da W H R U k st = Inr st1"
      and wf1: "wf_grid (myMap st1) H W"
      and in1: "inside H W (drunkAgentX st1, drunkAgentY st1)"
      and c1: "calls st1 = calls st @ [c]"
      and cs: "c_startX c = drunkAgentX st" "c_startY c = drunkAgentY st"
      and ce: "agentX (c_result c) = drunkAgentX st1" "agentY (c_result c) = drunkAgentY st1"
      and cf: "call_fresh c"
      by blast
    from "1.IH" [OF True it wf1 in1]
    obtain st' cs' where loop: "main_loop clock_ca clock_da W H R U n (k + 1) st1 = Inr st'"
      and c': "calls st' = calls st1 @ cs'" and len: "length cs' = nat (n - (k + 1))"
      and fr: "list_all call_fresh cs'" and su: "successively position_carried cs'"
      and ends: "if cs' = [] then drunkAgentX st' = drunkAgentX st1 \<and> drunkAgentY st' = drunkAgentY st1
        else c_startX (hd cs') = drunkAgentX st1 \<and> c_startY (hd cs') = drunkAgentY st1 \<and>
             agentX (c_result (last cs')) = drunkAgentX st' \<and>
             agentY (c_result (last cs')) = drunkAgentY st'"
      by blast
    have run: "main_loop clock_ca clock_da W H R U n k st = Inr st'"
      using True it loop by (subst main_loop.simps) simp
    have "successively position_carried (c # cs')"
      using su ends ce by (cases cs') (simp_all add: position_carried_def)
    moreover have "length (c # cs') = nat (n - k)"
      using len True by simp
    moreover have "calls st' = calls st @ c # cs'"
      using c' c1 by simp
    ultimately show ?thesis
      using run fr cf cs ce ends
      by (intro exI [of _ st'] exI [of _ "c # cs'"]) (simp split: if_splits)
  qed
qed

text \<open>
  Claim C6: across the five iterations of the driver the agent position persists, every
  call of drunkAgent starts at the position the call before it left (the first at
  \<open>(5, 10)\<close>) and the driver ends with the position the last call left; the direction and
  the two running probabilities do not persist, every call starts its first step with the
  first direction its own generator yields and with the base values \<open>probGenerateRoom\<close>
  and \<open>probChangeDirection\<close> of its own arguments, and its outcome is determined by its own
  generator, grid, arguments and start position.
\<close>

theorem main_agent_state:
  "\<exists>st. main_sim g clock_ca clock_da = Inr st \<and>
        length (calls st) = 5 \<and>
        c_startX (hd (calls st)) = 5 \<and> c_startY (hd (calls st)) = 10 \<and>
        successively position_carried (calls st) \<and>
        list_all call_fresh (calls st) \<and>
        drunkAgentX st = agentX (c_result (last (calls st))) \<and>
        drunkAgentY st = agentY (c_result (last (calls st)))"
proof -
  let ?m0 = "replicate (nat 10) (replicate (nat 20) (0 :: int))"
  have "wf_grid (fst (?m0, g)) 10 20"
    by (simp add: wf_grid_def list_all_length)
  from fill_i_loop_returns [OF this, of 0]
  obtain m g1 where fill: "fill_i_loop 10 20 0 (?m0, g) = Inr (m, g1)" and wf: "wf_grid m 10 20"
    by auto
  let ?st0 = "\<lparr>myMap = m, drunkAgentX = cdiv 10 2, drunkAgentY = cdiv 20 2, main_gen = g1, calls = []\<rparr>"
  have "wf_grid (myMap ?st0) 10 20" and "inside 10 20 (drunkAgentX ?st0, drunkAgentY ?st0)"
    using wf by (simp_all add: inside_def cdiv_def)
  from main_loop_effect [OF this, of clock_ca clock_da 1 "1 / 2" 5 0]
  obtain st' cs where loop: "main_loop clock_ca clock_da 20 10 1 (1 / 2) 5 0 ?st0 = Inr st'"
    and c: "calls st' = cs" and len: "length cs = 5"
    and fr: "list_all call_fresh cs" and su: "successively position_carried cs"
    and ends: "if cs = [] then drunkAgentX st' = drunkAgentX ?st0 \<and> drunkAgentY st' = drunkAgentY ?st0
        else c_startX (hd cs) = drunkAgentX ?st0 \<and> c_startY (hd cs) = drunkAgentY ?st0 \<and>
             agentX (c_result (last cs)) = drunkAgentX st' \<and>
             agentY (c_result (last cs)) = drunkAgentY st'"
    by auto
  have ne: "cs \<noteq> []" using len by auto
  have run: "main_sim g clock_ca clock_da = Inr st'"
    using fill loop by (simp add: main_sim_def Let_def)
  show ?thesis
    using run c len fr su ends ne by (auto simp: cdiv_def)
qed

end
